theory Spec2Isabelle
  imports Main "HOL-Library.Word" "HOL-Library.Signed_Division" "HOL-Library.Log_Nat"
begin

section \<open>Go's machine types as the program uses them\<close>

text \<open>
  Go's \<open>int\<close> and \<open>int64\<close> are 64-bit two's-complement integers on the platforms the
  repository is built for (the workflow runs on 64-bit Linux, macOS and Windows):
  addition, subtraction and multiplication wrap around, comparison is signed.
\<close>

type_synonym int64 = "64 word"

definition MaxInt64 :: int where
  "MaxInt64 = 2 ^ 63 - 1"

definition MinInt64 :: int where
  "MinInt64 = - (2 ^ 63)"

subsection \<open>Time\<close>

text \<open>
  A \<open>time.Time\<close> is an instant, here a number of nanoseconds on the clock
  \<open>time.Now()\<close> reads; the zero value \<open>time.Time{}\<close> is the instant 0, far before any
  reading of the clock. Every call of \<open>time.Now()\<close> in the source is an argument \<open>now\<close>
  of the model. A \<open>time.Duration\<close> is an \<open>int64\<close> of nanoseconds, and \<open>Time.Sub\<close>
  saturates at the ends of its range.
\<close>

type_synonym Time = int
type_synonym Duration = int64

definition zeroTime :: Time where
  "zeroTime = 0"

definition Sub :: "Time \<Rightarrow> Time \<Rightarrow> Duration" where
  "Sub t u = word_of_int (max MinInt64 (min MaxInt64 (t - u)))"

definition After :: "Time \<Rightarrow> Time \<Rightarrow> bool" where
  "After t u = (u < t)"

definition Second :: Duration where
  "Second = 1000000000"

definition Millisecond :: Duration where
  "Millisecond = 1000000"

subsection \<open>float64\<close>

text \<open>
  A finite \<open>float64\<close> is the rational it denotes, and every arithmetic operation is the
  exact operation followed by \<open>fl\<close>, rounding to the nearest binary64 value, ties to even
  (53 significant bits, gradual underflow below \<open>2 ^ - 1022\<close>). The operands of this
  program are conversions of 64-bit integers and quotients of them, so no operation
  overflows to an infinity and none produces a NaN.
\<close>

type_synonym float64 = rat

definition pow2 :: "int \<Rightarrow> rat" where
  "pow2 e = (if 0 \<le> e then 2 ^ nat e else 1 / 2 ^ nat (- e))"

definition float_exponent :: "rat \<Rightarrow> int" where
  "float_exponent x =
     (if 1 \<le> \<bar>x\<bar> then bitlen \<lfloor>\<bar>x\<bar>\<rfloor> - 1 else - bitlen (\<lceil>1 / \<bar>x\<bar>\<rceil> - 1))"

definition round_even :: "rat \<Rightarrow> int" where
  "round_even x =
     (let f = \<lfloor>x\<rfloor>; r = x - of_int f
      in if r < 1 / 2 then f else if 1 / 2 < r then f + 1 else if even f then f else f + 1)"

definition fl :: "rat \<Rightarrow> float64" where
  "fl x = (if x = 0 then 0
           else let u = pow2 (max (float_exponent x) (- 1022) - 52)
                in of_int (round_even (x / u)) * u)"

definition float64_of_int :: "int64 \<Rightarrow> float64" where
  "float64_of_int i = fl (of_int (sint i))"

text \<open>
  \<open>Duration.Seconds\<close> of the standard library:
  \<^verbatim>\<open>sec := d / Second; nsec := d % Second; return float64(sec) + float64(nsec)/1e9\<close>,
  with Go's division and remainder, which truncate towards zero.
\<close>

definition Seconds :: "Duration \<Rightarrow> float64" where
  "Seconds d =
     (let sec = sint d sdiv sint Second;
          nsec = sint d smod sint Second
      in fl (fl (of_int sec) + fl (fl (of_int nsec) / 1000000000)))"

text \<open>
  The conversion \<open>int(x)\<close> of a \<open>float64\<close> drops the fraction (towards zero). When the
  result does not fit the integer type, Go leaves the value to the implementation: the
  model takes that choice as the parameter \<open>impl\<close>.
\<close>

definition int_of_float64 :: "(float64 \<Rightarrow> int64) \<Rightarrow> float64 \<Rightarrow> int64" where
  "int_of_float64 impl x =
     (let t = (if 0 \<le> x then \<lfloor>x\<rfloor> else \<lceil>x\<rceil>)
      in if MinInt64 \<le> t \<and> t \<le> MaxInt64 then word_of_int t else impl x)"

text \<open>On amd64 the conversion instruction answers every value out of range with \<open>- 2 ^ 63\<close>.\<close>

definition amd64 :: "float64 \<Rightarrow> int64" where
  "amd64 x = word_of_int MinInt64"

section \<open>The token bucket of main.go\<close>

text \<open>
  The mutex of the struct is not a field of the model: \<open>Allow\<close> holds it from its first
  statement to its return, so a call is one atomic step on the other four fields.
\<close>

record RateLimiter =
  rate :: int64
  burst :: int64
  tokens :: int64
  lastUpdate :: Time

definition NewRateLimiter :: "int64 \<Rightarrow> int64 \<Rightarrow> Time \<Rightarrow> RateLimiter" where
  "NewRateLimiter r b now = \<lparr>rate = r, burst = b, tokens = b, lastUpdate = now\<rparr>"

definition min_int :: "int64 \<Rightarrow> int64 \<Rightarrow> int64" where
  "min_int a b = (if sint a < sint b then a else b)"

definition tokensToAdd :: "(float64 \<Rightarrow> int64) \<Rightarrow> Duration \<Rightarrow> int64 \<Rightarrow> int64" where
  "tokensToAdd impl elapsed r = int_of_float64 impl (fl (Seconds elapsed * float64_of_int r))"

definition Allow :: "(float64 \<Rightarrow> int64) \<Rightarrow> RateLimiter \<Rightarrow> Time \<Rightarrow> bool \<times> RateLimiter" where
  "Allow impl rl now =
     (let elapsed = Sub now (lastUpdate rl);
          rl1 = rl\<lparr>lastUpdate := now\<rparr>;
          rl2 = rl1\<lparr>tokens := min_int (tokens rl1 + tokensToAdd impl elapsed (rate rl1)) (burst rl1)\<rparr>
      in if 0 < sint (tokens rl2) then (True, rl2\<lparr>tokens := tokens rl2 - 1\<rparr>)
         else (False, rl2))"

text \<open>
  A caller's consecutive calls of \<open>Allow\<close>, one per reading of the clock: the answers in
  order, and the bucket after the last call.
\<close>

fun Allow_calls :: "(float64 \<Rightarrow> int64) \<Rightarrow> RateLimiter \<Rightarrow> Time list \<Rightarrow> bool list \<times> RateLimiter" where
  "Allow_calls impl rl [] = ([], rl)"
| "Allow_calls impl rl (now # nows) =
     (case Allow impl rl now of (ok, rl') \<Rightarrow>
        (case Allow_calls impl rl' nows of (oks, rl'') \<Rightarrow> (ok # oks, rl'')))"

text \<open>
  The runs of calls on which the clock never goes back and no refill of a bucket with
  rate \<open>r\<close> and capacity \<open>b\<close> leaves the range of the integer: \<open>u\<close> is the reading of the
  previous call.
\<close>

fun refills_fit :: "int64 \<Rightarrow> int64 \<Rightarrow> Time \<Rightarrow> Time list \<Rightarrow> bool" where
  "refills_fit r b u [] = True"
| "refills_fit r b u (now # nows) =
     (u \<le> now \<and> of_int (sint b) + fl (Seconds (Sub now u) * float64_of_int r) < 2 ^ 63
      \<and> refills_fit r b now nows)"

subsection \<open>Wait\<close>

text \<open>
  \<open>Wait\<close> retries \<open>Allow\<close> until it answers true, sleeping
  \<open>time.Duration(1000/rl.rate) * time.Millisecond\<close> after each refusal. The division is
  Go's integer division (towards zero), which panics on a zero divisor; the conversion and
  the product are 64-bit. The loop has no bound of its own: the model runs it on the
  readings of the clock it is given, one per call of \<open>Allow\<close>, and answers \<open>Blocked\<close>
  when they are used up with no token granted. It returns the arguments of
  \<open>time.Sleep\<close> in order.
\<close>

datatype panic = DivideByZero

definition retry_delay :: "int64 \<Rightarrow> panic + Duration" where
  "retry_delay r =
     (if r = 0 then Inl DivideByZero
      else Inr (word_of_int (1000 sdiv sint r) * Millisecond))"

datatype wait_outcome = Returned | Panicked panic | Blocked

fun Wait :: "(float64 \<Rightarrow> int64) \<Rightarrow> RateLimiter \<Rightarrow> Time list
    \<Rightarrow> (wait_outcome \<times> Duration list) \<times> RateLimiter" where
  "Wait impl rl [] = ((Blocked, []), rl)"
| "Wait impl rl (now # nows) =
     (case Allow impl rl now of
        (True, rl') \<Rightarrow> ((Returned, []), rl')
      | (False, rl') \<Rightarrow>
          (case retry_delay (rate rl') of
             Inl p \<Rightarrow> ((Panicked p, []), rl')
           | Inr d \<Rightarrow>
               (case Wait impl rl' nows of ((out, ds), rl'') \<Rightarrow> ((out, d # ds), rl''))))"

section \<open>Statistics (package stats)\<close>

record Stats =
  TotalRequests :: int64
  AllowedRequests :: int64
  DeniedRequests :: int64
  StartTime :: Time
  LastRequestTime :: Time

definition NewStats :: "Time \<Rightarrow> Stats" where
  "NewStats now =
     \<lparr>TotalRequests = 0, AllowedRequests = 0, DeniedRequests = 0,
      StartTime = now, LastRequestTime = zeroTime\<rparr>"

definition RecordAllowed :: "Stats \<Rightarrow> Time \<Rightarrow> Stats" where
  "RecordAllowed s now =
     s\<lparr>TotalRequests := TotalRequests s + 1,
       AllowedRequests := AllowedRequests s + 1,
       LastRequestTime := now\<rparr>"

definition RecordDenied :: "Stats \<Rightarrow> Time \<Rightarrow> Stats" where
  "RecordDenied s now =
     s\<lparr>TotalRequests := TotalRequests s + 1,
       DeniedRequests := DeniedRequests s + 1,
       LastRequestTime := now\<rparr>"

definition Reset :: "Stats \<Rightarrow> Time \<Rightarrow> Stats" where
  "Reset s now =
     s\<lparr>TotalRequests := 0, AllowedRequests := 0, DeniedRequests := 0,
       StartTime := now, LastRequestTime := zeroTime\<rparr>"

definition calculateAcceptanceRatio :: "Stats \<Rightarrow> float64" where
  "calculateAcceptanceRatio s =
     (if TotalRequests s = 0 then 0
      else fl (float64_of_int (AllowedRequests s) / float64_of_int (TotalRequests s)))"

record StatsSnapshot =
  snap_TotalRequests :: int64
  snap_AllowedRequests :: int64
  snap_DeniedRequests :: int64
  snap_StartTime :: Time
  snap_LastRequestTime :: Time
  snap_Duration :: Duration
  snap_Rate :: float64
  snap_AcceptanceRatio :: float64

text \<open>\<open>time.Since(t)\<close> is \<open>time.Now().Sub(t)\<close>.\<close>

definition GetSnapshot :: "Stats \<Rightarrow> Time \<Rightarrow> StatsSnapshot" where
  "GetSnapshot s now =
     (let duration = (if After (LastRequestTime s) (StartTime s)
                      then Sub (LastRequestTime s) (StartTime s)
                      else Sub now (StartTime s));
          rate = (if 0 < Seconds duration
                  then fl (float64_of_int (AllowedRequests s) / Seconds duration)
                  else 0)
      in \<lparr>snap_TotalRequests = TotalRequests s,
          snap_AllowedRequests = AllowedRequests s,
          snap_DeniedRequests = DeniedRequests s,
          snap_StartTime = StartTime s,
          snap_LastRequestTime = LastRequestTime s,
          snap_Duration = duration,
          snap_Rate = rate,
          snap_AcceptanceRatio = calculateAcceptanceRatio s\<rparr>)"

text \<open>
  The operations of a \<open>Collector\<close>, and a run of them on a \<open>Stats\<close>, each with the
  reading of the clock it makes.
\<close>

datatype stats_op = OpRecordAllowed | OpRecordDenied | OpReset

fun apply_op :: "Stats \<Rightarrow> stats_op \<times> Time \<Rightarrow> Stats" where
  "apply_op s (OpRecordAllowed, now) = RecordAllowed s now"
| "apply_op s (OpRecordDenied, now) = RecordDenied s now"
| "apply_op s (OpReset, now) = Reset s now"

definition apply_ops :: "Stats \<Rightarrow> (stats_op \<times> Time) list \<Rightarrow> Stats" where
  "apply_ops s ops = foldl apply_op s ops"

subsection \<open>The decorator\<close>

text \<open>
  \<open>RateLimiterWithStats\<close> holds any value of the interface \<open>RateLimiter\<close>. The wrapped
  limiter is a state of some type \<open>'l\<close> and its method \<open>Allow\<close> a function \<open>allow\<close> on that
  state; the decorator's own \<open>Stats\<close> is a field no wrapped limiter reaches.
\<close>

record 'l RateLimiterWithStats =
  limiter :: 'l
  stats :: Stats

definition NewRateLimiterWithStats :: "'l \<Rightarrow> Time \<Rightarrow> 'l RateLimiterWithStats" where
  "NewRateLimiterWithStats l now = \<lparr>limiter = l, stats = NewStats now\<rparr>"

definition Allow_with_stats ::
    "('l \<Rightarrow> bool \<times> 'l) \<Rightarrow> 'l RateLimiterWithStats \<Rightarrow> Time \<Rightarrow> bool \<times> 'l RateLimiterWithStats" where
  "Allow_with_stats allow r now =
     (case allow (limiter r) of (allowed, l') \<Rightarrow>
        (allowed,
         \<lparr>limiter = l',
          stats = (if allowed then RecordAllowed (stats r) now else RecordDenied (stats r) now)\<rparr>))"

section \<open>The per-key middleware (package middleware)\<close>

text \<open>
  A value of the interface \<open>RateLimiter\<close> is a reference of type \<open>'r\<close> into the
  program's state \<open>'w\<close> (the limiter objects and whatever else the factory and the
  handlers touch). The factory and the handlers are functions on that state, and the
  method \<open>Allow\<close> of a reference is \<open>allow\<close>. The field \<open>limiters\<close> is a \<open>sync.Map\<close>:
  \<open>LoadOrStore\<close> answers the value stored under the key if there is one, and stores and
  answers the given value otherwise, in one atomic step.
\<close>

definition LoadOrStore :: "('k \<rightharpoonup> 'v) \<Rightarrow> 'k \<Rightarrow> 'v \<Rightarrow> ('v \<times> bool) \<times> ('k \<rightharpoonup> 'v)" where
  "LoadOrStore m key val =
     (case m key of Some actual \<Rightarrow> ((actual, True), m) | None \<Rightarrow> ((val, False), m(key \<mapsto> val)))"

record ('req, 'resp, 'w, 'r) PerKeyHTTPRateLimiter =
  limiterFactory :: "'w \<Rightarrow> 'r \<times> 'w"
  keyFunc :: "'req \<Rightarrow> string"
  errorHandler :: "'req \<Rightarrow> 'w \<Rightarrow> 'resp \<times> 'w"
  limiters :: "string \<rightharpoonup> 'r"

definition Middleware ::
    "('r \<Rightarrow> 'w \<Rightarrow> bool \<times> 'w) \<Rightarrow> ('req \<Rightarrow> 'w \<Rightarrow> 'resp \<times> 'w)
     \<Rightarrow> ('req, 'resp, 'w, 'r) PerKeyHTTPRateLimiter \<times> 'w \<Rightarrow> 'req
     \<Rightarrow> 'resp \<times> ('req, 'resp, 'w, 'r) PerKeyHTTPRateLimiter \<times> 'w" where
  "Middleware allow next st r =
     (case st of (rl, w) \<Rightarrow>
        (let key = keyFunc rl r in
         case limiterFactory rl w of (candidate, w1) \<Rightarrow>
           (case LoadOrStore (limiters rl) key candidate of ((actual, loaded), m) \<Rightarrow>
              (case allow actual w1 of (ok, w2) \<Rightarrow>
                 (if \<not> ok
                  then (case errorHandler rl r w2 of (resp, w3) \<Rightarrow> (resp, rl\<lparr>limiters := m\<rparr>, w3))
                  else (case next r w2 of (resp, w3) \<Rightarrow> (resp, rl\<lparr>limiters := m\<rparr>, w3)))))))"

definition MiddlewareFunc ::
    "('r \<Rightarrow> 'w \<Rightarrow> bool \<times> 'w) \<Rightarrow> ('req \<Rightarrow> 'w \<Rightarrow> 'resp \<times> 'w)
     \<Rightarrow> ('req, 'resp, 'w, 'r) PerKeyHTTPRateLimiter \<times> 'w \<Rightarrow> 'req
     \<Rightarrow> 'resp \<times> ('req, 'resp, 'w, 'r) PerKeyHTTPRateLimiter \<times> 'w" where
  "MiddlewareFunc allow next st r =
     (case st of (rl, w) \<Rightarrow>
        (let key = keyFunc rl r in
         case limiterFactory rl w of (candidate, w1) \<Rightarrow>
           (case LoadOrStore (limiters rl) key candidate of ((actual, loaded), m) \<Rightarrow>
              (case allow actual w1 of (ok, w2) \<Rightarrow>
                 (if \<not> ok
                  then (case errorHandler rl r w2 of (resp, w3) \<Rightarrow> (resp, rl\<lparr>limiters := m\<rparr>, w3))
                  else (case next r w2 of (resp, w3) \<Rightarrow> (resp, rl\<lparr>limiters := m\<rparr>, w3)))))))"

text \<open>Requests served one after the other by the handler \<open>Middleware\<close> returns.\<close>

fun serve ::
    "('r \<Rightarrow> 'w \<Rightarrow> bool \<times> 'w) \<Rightarrow> ('req \<Rightarrow> 'w \<Rightarrow> 'resp \<times> 'w)
     \<Rightarrow> ('req, 'resp, 'w, 'r) PerKeyHTTPRateLimiter \<times> 'w \<Rightarrow> 'req list
     \<Rightarrow> 'resp list \<times> ('req, 'resp, 'w, 'r) PerKeyHTTPRateLimiter \<times> 'w" where
  "serve allow next st [] = ([], st)"
| "serve allow next st (r # rs) =
     (case Middleware allow next st r of (resp, st') \<Rightarrow>
        (case serve allow next st' rs of (resps, st'') \<Rightarrow> (resp # resps, st'')))"

subsection \<open>Handlers running concurrently\<close>

text \<open>
  The handler is called on many goroutines at once. Its statements are the steps below:
  the key and the candidate limiter (the arguments of \<open>LoadOrStore\<close>, evaluated before the
  call), the atomic \<open>LoadOrStore\<close>, the limiter's \<open>Allow\<close> (atomic under the limiter's own
  lock), and the response. A handler in flight is the statement it has reached with the
  values of its local variables, and a schedule names the handler that takes the next
  step; a name with no handler is skipped.
\<close>

datatype ('req, 'resp, 'r) handler =
    Arrived 'req
  | Candidate 'req string 'r
  | Loaded 'req string 'r
  | Checked 'req string 'r bool
  | Responded 'resp

definition handler_step ::
    "('r \<Rightarrow> 'w \<Rightarrow> bool \<times> 'w) \<Rightarrow> ('req \<Rightarrow> 'w \<Rightarrow> 'resp \<times> 'w)
     \<Rightarrow> ('req, 'resp, 'w, 'r) PerKeyHTTPRateLimiter \<times> 'w \<Rightarrow> ('req, 'resp, 'r) handler
     \<Rightarrow> ('req, 'resp, 'r) handler \<times> ('req, 'resp, 'w, 'r) PerKeyHTTPRateLimiter \<times> 'w" where
  "handler_step allow next st h =
     (case st of (rl, w) \<Rightarrow>
        (case h of
           Arrived r \<Rightarrow>
             (case limiterFactory rl w of (candidate, w1) \<Rightarrow>
                (Candidate r (keyFunc rl r) candidate, rl, w1))
         | Candidate r key candidate \<Rightarrow>
             (case LoadOrStore (limiters rl) key candidate of ((actual, loaded), m) \<Rightarrow>
                (Loaded r key actual, rl\<lparr>limiters := m\<rparr>, w))
         | Loaded r key actual \<Rightarrow>
             (case allow actual w of (ok, w2) \<Rightarrow> (Checked r key actual ok, rl, w2))
         | Checked r key actual ok \<Rightarrow>
             (if \<not> ok
              then (case errorHandler rl r w of (resp, w3) \<Rightarrow> (Responded resp, rl, w3))
              else (case next r w of (resp, w3) \<Rightarrow> (Responded resp, rl, w3)))
         | Responded resp \<Rightarrow> (Responded resp, rl, w)))"

fun run ::
    "('r \<Rightarrow> 'w \<Rightarrow> bool \<times> 'w) \<Rightarrow> ('req \<Rightarrow> 'w \<Rightarrow> 'resp \<times> 'w)
     \<Rightarrow> (('req, 'resp, 'w, 'r) PerKeyHTTPRateLimiter \<times> 'w) \<times> ('req, 'resp, 'r) handler list
     \<Rightarrow> nat list
     \<Rightarrow> (('req, 'resp, 'w, 'r) PerKeyHTTPRateLimiter \<times> 'w) \<times> ('req, 'resp, 'r) handler list" where
  "run allow next c [] = c"
| "run allow next c (i # sched) =
     (case c of (st, hs) \<Rightarrow>
        (if i < length hs
         then (case handler_step allow next st (hs ! i) of (h', st') \<Rightarrow>
                 run allow next (st', hs[i := h']) sched)
         else run allow next (st, hs) sched))"

text \<open>
  A handler that has its limiter from \<open>LoadOrStore\<close> holds the one the registry stores
  under its key.
\<close>

fun holds_stored :: "(string \<rightharpoonup> 'r) \<Rightarrow> ('req, 'resp, 'r) handler \<Rightarrow> bool" where
  "holds_stored m (Loaded r key actual) = (m key = Some actual)"
| "holds_stored m (Checked r key actual ok) = (m key = Some actual)"
| "holds_stored m h = True"

text \<open>
  The statement a handler has reached, counted in steps taken; the key it serves; and
  the handlers in the order in which a schedule makes them call \<open>Allow\<close>, which is the
  third step of each. \<open>ps\<close> holds the steps every handler has taken so far.
\<close>

fun phase :: "('req, 'resp, 'r) handler \<Rightarrow> nat" where
  "phase (Arrived r) = 0"
| "phase (Candidate r key candidate) = 1"
| "phase (Loaded r key actual) = 2"
| "phase (Checked r key actual ok) = 3"
| "phase (Responded resp) = 4"

fun handler_key :: "('req \<Rightarrow> string) \<Rightarrow> ('req, 'resp, 'r) handler \<Rightarrow> string" where
  "handler_key kf (Arrived r) = kf r"
| "handler_key kf (Candidate r key candidate) = key"
| "handler_key kf (Loaded r key actual) = key"
| "handler_key kf (Checked r key actual ok) = key"
| "handler_key kf (Responded resp) = []"

fun allow_order :: "nat list \<Rightarrow> nat list \<Rightarrow> nat list" where
  "allow_order ps [] = []"
| "allow_order ps (i # sched) =
     (if i < length ps
      then (if ps ! i = 2 then [i] else []) @ allow_order (ps[i := min 4 (Suc (ps ! i))]) sched
      else allow_order ps sched)"

section \<open>Facts about the machine types\<close>

lemma Sub_same: "Sub t t = 0"
  by (simp add: Sub_def MinInt64_def MaxInt64_def)

lemma fl_zero: "fl 0 = 0"
  by (simp add: fl_def)

text \<open>The rounding at values whose binary64 neighbours are known.\<close>

lemma fl_examples:
  "fl (1 / 10) = 3602879701896397 / 36028797018963968"
  "fl (2 ^ 63 - 1) = 2 ^ 63"
  "fl (3 / 2) = 3 / 2"
  "fl (- (1 / 3)) = - (6004799503160661 / 18014398509481984)"
  by code_simp+

lemma Seconds_zero: "Seconds 0 = 0"
  by (simp add: Seconds_def Second_def signed_divide_int_def signed_modulo_int_def fl_zero)

lemma int_of_float64_zero: "int_of_float64 impl 0 = 0"
  by (simp add: int_of_float64_def MinInt64_def MaxInt64_def)

lemma tokensToAdd_zero: "tokensToAdd impl 0 r = 0"
  by (simp add: tokensToAdd_def Seconds_zero fl_zero int_of_float64_zero)

lemma sint_pred: "0 < sint (w :: int64) \<Longrightarrow> sint (w - 1) = sint w - 1"
proof -
  assume pos: "0 < sint w"
  have up: "sint w < 2 ^ 63"
    using sint_lt [of w] by simp
  have "sint (w - 1) = signed_take_bit 63 (sint w - 1)"
    by (simp add: sint_word_ariths)
  also have "\<dots> = sint w - 1"
    using pos up by (intro signed_take_bit_int_eq_self) auto
  finally show ?thesis .
qed

lemma pow2_pos: "0 < pow2 e"
  by (simp add: pow2_def)

lemma round_even_nonneg: "0 \<le> x \<Longrightarrow> 0 \<le> round_even x"
  by (simp add: round_even_def Let_def)

lemma fl_nonneg: "0 \<le> x \<Longrightarrow> 0 \<le> fl x"
  unfolding fl_def Let_def
  by (simp add: pow2_pos less_imp_le round_even_nonneg)

lemma sint_of_int64: "MinInt64 \<le> t \<Longrightarrow> t \<le> MaxInt64 \<Longrightarrow> sint (word_of_int t :: int64) = t"
proof -
  assume lo: "MinInt64 \<le> t" and hi: "t \<le> MaxInt64"
  have "sint (word_of_int t :: int64) = signed_take_bit 63 t"
    by (simp add: sint_sbintrunc')
  also have "\<dots> = t"
    using lo hi by (intro signed_take_bit_int_eq_self) (simp_all add: MinInt64_def MaxInt64_def)
  finally show ?thesis .
qed

lemma sint_Sub: "sint (Sub t u) = max MinInt64 (min MaxInt64 (t - u))"
  unfolding Sub_def by (rule sint_of_int64) (simp_all add: MinInt64_def MaxInt64_def)

lemma Sub_nonneg: "u \<le> t \<Longrightarrow> 0 \<le> sint (Sub t u)"
  by (simp add: sint_Sub MinInt64_def MaxInt64_def)

lemma Seconds_nonneg: "0 \<le> sint d \<Longrightarrow> 0 \<le> Seconds d"
  unfolding Seconds_def Let_def
  by (intro fl_nonneg add_nonneg_nonneg divide_nonneg_nonneg)
     (simp_all add: signed_divide_int_def signed_modulo_int_def Second_def sgn_if pos_imp_zdiv_nonneg_iff)

lemma float64_of_int_nonneg: "0 \<le> sint i \<Longrightarrow> 0 \<le> float64_of_int i"
  unfolding float64_of_int_def by (rule fl_nonneg) (simp only: of_int_0_le_iff)

lemma sint_add_fits:
  "MinInt64 \<le> sint a + sint b \<Longrightarrow> sint a + sint b \<le> MaxInt64 \<Longrightarrow> sint (a + b :: int64) = sint a + sint b"
proof -
  assume lo: "MinInt64 \<le> sint a + sint b" and hi: "sint a + sint b \<le> MaxInt64"
  have "sint (a + b) = signed_take_bit 63 (sint a + sint b)"
    by (simp add: sint_word_ariths)
  also have "\<dots> = sint a + sint b"
    using lo hi by (intro signed_take_bit_int_eq_self) (simp_all add: MinInt64_def MaxInt64_def)
  finally show ?thesis .
qed

lemma int_of_float64_fits:
  "0 \<le> x \<Longrightarrow> x < 2 ^ 63 \<Longrightarrow> sint (int_of_float64 impl x) = \<lfloor>x\<rfloor>"
proof -
  assume nn: "0 \<le> x" and lt: "x < 2 ^ 63"
  have lo: "0 \<le> \<lfloor>x\<rfloor>" using nn by simp
  have "\<lfloor>x\<rfloor> < 2 ^ 63"
    using lt by (simp add: floor_less_iff)
  then have hi: "\<lfloor>x\<rfloor> \<le> MaxInt64" by (simp add: MaxInt64_def)
  have "MinInt64 \<le> \<lfloor>x\<rfloor>" using lo by (simp add: MinInt64_def)
  then show ?thesis
    using nn hi by (simp add: int_of_float64_def Let_def sint_of_int64)
qed

subsection \<open>The rounding is that of binary64\<close>

text \<open>
  \<open>float_exponent x\<close> is the binary exponent of \<open>x\<close>; \<open>fl x\<close> is a multiple of the unit in
  the last place of \<open>x\<close> by an integer of at most 53 bits, and lies within half that unit
  of \<open>x\<close>.
\<close>

lemma pow2_nat: "0 \<le> e \<Longrightarrow> pow2 e = 2 ^ nat e"
  by (simp add: pow2_def)

lemma pow2_neg: "e \<le> 0 \<Longrightarrow> pow2 e = 1 / 2 ^ nat (- e)"
  by (cases "e = 0") (simp_all add: pow2_def)

lemma float_exponent_ge1:
  assumes "1 \<le> \<bar>x\<bar>"
  shows "pow2 (float_exponent x) \<le> \<bar>x\<bar> \<and> \<bar>x\<bar> < pow2 (float_exponent x + 1)"
proof -
  let ?n = "\<lfloor>\<bar>x\<bar>\<rfloor>"
  have n1: "1 \<le> ?n" using assms by simp
  then have n0: "0 < ?n" by simp
  from bitlen_bounds [OF n0]
  have lo: "2 ^ nat (bitlen ?n - 1) \<le> ?n" and hi: "?n < 2 ^ nat (bitlen ?n)"
    by simp_all
  have b1: "1 \<le> bitlen ?n"
    using n0 by (simp add: bitlen_alt_def)
  have e: "float_exponent x = bitlen ?n - 1"
    using assms by (simp add: float_exponent_def)
  have "(2 :: rat) ^ nat (bitlen ?n - 1) = of_int (2 ^ nat (bitlen ?n - 1))"
    by simp
  also have "\<dots> \<le> of_int ?n"
    using lo by (simp only: of_int_le_iff)
  also have "\<dots> \<le> \<bar>x\<bar>"
    by simp
  finally have A: "pow2 (float_exponent x) \<le> \<bar>x\<bar>"
    using b1 by (simp add: e pow2_nat)
  have "?n + 1 \<le> 2 ^ nat (bitlen ?n)"
    using hi by simp
  then have "(of_int (?n + 1) :: rat) \<le> of_int (2 ^ nat (bitlen ?n))"
    by (simp only: of_int_le_iff)
  moreover have "\<bar>x\<bar> < of_int (?n + 1)"
    using floor_correct [of "\<bar>x\<bar>"] by simp
  ultimately have "\<bar>x\<bar> < 2 ^ nat (bitlen ?n)"
    by simp
  then have B: "\<bar>x\<bar> < pow2 (float_exponent x + 1)"
    using b1 by (simp add: e pow2_nat)
  from A B show ?thesis ..
qed

lemma float_exponent_lt1:
  assumes "x \<noteq> 0" and "\<bar>x\<bar> < 1"
  shows "pow2 (float_exponent x) \<le> \<bar>x\<bar> \<and> \<bar>x\<bar> < pow2 (float_exponent x + 1)"
proof -
  let ?y = "1 / \<bar>x\<bar>"
  let ?m = "\<lceil>?y\<rceil> - 1"
  have xp: "0 < \<bar>x\<bar>" using assms(1) by simp
  have y1: "1 < ?y" using assms(2) xp by simp
  then have "1 < \<lceil>?y\<rceil>" by (simp add: less_ceiling_iff)
  then have m0: "0 < ?m" by simp
  from bitlen_bounds [OF m0]
  have lo: "2 ^ nat (bitlen ?m - 1) \<le> ?m" and hi: "?m < 2 ^ nat (bitlen ?m)"
    by simp_all
  have b1: "1 \<le> bitlen ?m"
    using m0 by (simp add: bitlen_alt_def)
  have e: "float_exponent x = - bitlen ?m"
    using assms(2) by (simp add: float_exponent_def)
  have "\<lceil>?y\<rceil> \<le> 2 ^ nat (bitlen ?m)"
    using hi by simp
  then have "?y \<le> of_int (2 ^ nat (bitlen ?m))"
    by (simp only: ceiling_le_iff)
  then have yk: "?y \<le> 2 ^ nat (bitlen ?m)"
    by simp
  have A: "pow2 (float_exponent x) \<le> \<bar>x\<bar>"
  proof -
    have "1 \<le> 2 ^ nat (bitlen ?m) * \<bar>x\<bar>"
      using yk xp by (simp add: pos_divide_le_eq)
    then have "1 / 2 ^ nat (bitlen ?m) \<le> \<bar>x\<bar>"
      by (simp add: pos_divide_le_eq mult.commute)
    then show ?thesis
      using b1 by (simp add: e pow2_neg)
  qed
  have "(of_int (2 ^ nat (bitlen ?m - 1)) :: rat) \<le> of_int ?m"
    using lo by (simp only: of_int_le_iff)
  moreover have "of_int ?m < ?y"
    using ceiling_correct [of ?y] by simp
  ultimately have ky: "2 ^ nat (bitlen ?m - 1) < ?y"
    by simp
  have B: "\<bar>x\<bar> < pow2 (float_exponent x + 1)"
  proof -
    have "2 ^ nat (bitlen ?m - 1) * \<bar>x\<bar> < 1"
      using ky xp by (simp add: pos_less_divide_eq)
    then have "\<bar>x\<bar> < 1 / 2 ^ nat (bitlen ?m - 1)"
      by (simp add: pos_less_divide_eq mult.commute)
    moreover have "pow2 (float_exponent x + 1) = 1 / 2 ^ nat (bitlen ?m - 1)"
      using b1 by (simp add: e pow2_neg)
    ultimately show ?thesis by simp
  qed
  from A B show ?thesis ..
qed

lemma float_exponent_bounds:
  "x \<noteq> 0 \<Longrightarrow> pow2 (float_exponent x) \<le> \<bar>x\<bar> \<and> \<bar>x\<bar> < pow2 (float_exponent x + 1)"
  using float_exponent_ge1 [of x] float_exponent_lt1 [of x] by (cases "1 \<le> \<bar>x\<bar>") simp_all

lemma round_even_error: "\<bar>of_int (round_even y) - y\<bar> \<le> 1 / 2"
proof -
  have "of_int \<lfloor>y\<rfloor> \<le> y" "y < of_int \<lfloor>y\<rfloor> + 1"
    using floor_correct [of y] by simp_all
  then have r: "0 \<le> y - of_int \<lfloor>y\<rfloor>" "y - of_int \<lfloor>y\<rfloor> < 1"
    by simp_all
  consider "y - of_int \<lfloor>y\<rfloor> < 1 / 2" | "1 / 2 < y - of_int \<lfloor>y\<rfloor>"
    | "y - of_int \<lfloor>y\<rfloor> = 1 / 2"
    by linarith
  then show ?thesis
  proof cases
    case 1
    then have "round_even y = \<lfloor>y\<rfloor>" by (simp add: round_even_def Let_def)
    with 1 r show ?thesis by linarith
  next
    case 2
    then have "round_even y = \<lfloor>y\<rfloor> + 1" by (simp add: round_even_def Let_def)
    then have "of_int (round_even y) = of_int \<lfloor>y\<rfloor> + (1 :: rat)" by simp
    with 2 r show ?thesis by linarith
  next
    case 3
    then have "round_even y = \<lfloor>y\<rfloor> \<or> round_even y = \<lfloor>y\<rfloor> + 1"
      by (simp add: round_even_def Let_def)
    then have "of_int (round_even y) = (of_int \<lfloor>y\<rfloor> :: rat)
        \<or> of_int (round_even y) = of_int \<lfloor>y\<rfloor> + (1 :: rat)"
      by auto
    with 3 show ?thesis by linarith
  qed
qed

lemma fl_error:
  "\<bar>fl x - x\<bar> \<le> pow2 (max (float_exponent x) (- 1022) - 52) / 2"
proof (cases "x = 0")
  case True
  then show ?thesis by (simp add: fl_def less_imp_le pow2_pos)
next
  case False
  let ?u = "pow2 (max (float_exponent x) (- 1022) - 52)"
  have u: "0 < ?u" by (rule pow2_pos)
  have "fl x - x = (of_int (round_even (x / ?u)) - x / ?u) * ?u"
    using False u by (simp add: fl_def Let_def algebra_simps)
  then have "\<bar>fl x - x\<bar> = \<bar>of_int (round_even (x / ?u)) - x / ?u\<bar> * ?u"
    using u by (simp add: abs_mult)
  also have "\<dots> \<le> (1 / 2) * ?u"
    using round_even_error [of "x / ?u"] u by (intro mult_right_mono) simp_all
  finally show ?thesis by simp
qed

lemma pow2_add: "pow2 (a + b) = pow2 a * pow2 b"
proof -
  have p: "pow2 e = 2 powi e" for e
    by (simp add: pow2_def power_int_def field_simps)
  show ?thesis
    by (simp add: p power_int_add)
qed

lemma fl_mantissa:
  assumes "x \<noteq> 0"
  shows "\<bar>round_even (x / pow2 (max (float_exponent x) (- 1022) - 52))\<bar> \<le> 2 ^ 53"
proof -
  let ?e = "max (float_exponent x) (- 1022)"
  let ?u = "pow2 (?e - 52)"
  have u: "0 < ?u" by (rule pow2_pos)
  have "\<bar>x\<bar> < pow2 (float_exponent x + 1)"
    using float_exponent_bounds [OF assms] by simp
  also have "\<dots> \<le> pow2 (?e + 1)"
  proof -
    have m: "pow2 a \<le> pow2 b" if "a \<le> b" for a b
    proof -
      have "pow2 b = pow2 a * pow2 (b - a)" using pow2_add [of a "b - a"] by simp
      moreover have "1 \<le> pow2 (b - a)" using that by (simp add: pow2_def)
      ultimately show ?thesis using pow2_pos [of a] by simp
    qed
    show ?thesis by (rule m) simp
  qed
  also have "\<dots> = 2 ^ 53 * ?u"
  proof -
    have "pow2 53 = 2 ^ 53" by (simp add: pow2_def)
    moreover have "?e + 1 = 53 + (?e - 52)" by simp
    ultimately show ?thesis
      using pow2_add [of 53 "?e - 52"] by (simp only:)
  qed
  finally have "\<bar>x / ?u\<bar> < 2 ^ 53"
    using u by (simp add: pos_divide_less_eq)
  then have b: "- (2 ^ 53) < x / ?u" "x / ?u < 2 ^ 53"
    by linarith+
  have f: "- (2 ^ 53) \<le> \<lfloor>x / ?u\<rfloor>" "\<lfloor>x / ?u\<rfloor> < 2 ^ 53"
    using b by (simp_all add: le_floor_iff floor_less_iff less_imp_le)
  have c: "round_even (x / ?u) = \<lfloor>x / ?u\<rfloor> \<or> round_even (x / ?u) = \<lfloor>x / ?u\<rfloor> + 1"
    by (simp add: round_even_def Let_def)
  show ?thesis
    using f c by arith
qed

section \<open>The token bucket: the contract of Allow\<close>

lemma sint_min_int: "sint (min_int a b) = min (sint a) (sint b)"
  by (simp add: min_int_def)

lemma sint_zero_imp: "sint (w :: int64) = 0 \<Longrightarrow> w = 0"
proof -
  assume "sint w = 0"
  then have "sint w = sint (0 :: int64)" by simp
  then show "w = 0" by (rule signed_word_eqI)
qed

lemma refill_fits:
  assumes tok: "0 \<le> sint (tokens rl)"
    and rt: "0 \<le> sint (rate rl)"
    and clock: "lastUpdate rl \<le> now"
    and fits: "of_int (sint (tokens rl)) + fl (Seconds (Sub now (lastUpdate rl)) * float64_of_int (rate rl)) < 2 ^ 63"
  shows "sint (tokensToAdd impl (Sub now (lastUpdate rl)) (rate rl))
           = \<lfloor>fl (Seconds (Sub now (lastUpdate rl)) * float64_of_int (rate rl))\<rfloor>"
    and "0 \<le> sint (tokensToAdd impl (Sub now (lastUpdate rl)) (rate rl))"
    and "sint (tokens rl + tokensToAdd impl (Sub now (lastUpdate rl)) (rate rl))
           = sint (tokens rl) + sint (tokensToAdd impl (Sub now (lastUpdate rl)) (rate rl))"
proof -
  let ?x = "fl (Seconds (Sub now (lastUpdate rl)) * float64_of_int (rate rl))"
  let ?a = "tokensToAdd impl (Sub now (lastUpdate rl)) (rate rl)"
  have nn: "0 \<le> ?x"
    using clock rt by (intro fl_nonneg mult_nonneg_nonneg Seconds_nonneg Sub_nonneg float64_of_int_nonneg)
  have tk: "(0 :: rat) \<le> of_int (sint (tokens rl))"
    using tok by (simp only: of_int_0_le_iff)
  have lt: "?x < 2 ^ 63"
    using fits tk by linarith
  show a: "sint ?a = \<lfloor>?x\<rfloor>"
    unfolding tokensToAdd_def using nn lt by (rule int_of_float64_fits)
  show a0: "0 \<le> sint ?a"
    using a nn by simp
  have "of_int (sint (tokens rl) + \<lfloor>?x\<rfloor>) \<le> of_int (sint (tokens rl)) + ?x"
    by simp
  also have "\<dots> < 2 ^ 63" by (fact fits)
  finally have "of_int (sint (tokens rl) + \<lfloor>?x\<rfloor>) < (of_int (2 ^ 63) :: rat)"
    by simp
  then have "sint (tokens rl) + \<lfloor>?x\<rfloor> < 2 ^ 63"
    by (simp only: of_int_less_iff)
  then have hi: "sint (tokens rl) + sint ?a \<le> MaxInt64"
    using a by (simp add: MaxInt64_def)
  have lo: "MinInt64 \<le> sint (tokens rl) + sint ?a"
    using tok a0 by (simp add: MinInt64_def)
  show "sint (tokens rl + ?a) = sint (tokens rl) + sint ?a"
    using lo hi by (rule sint_add_fits)
qed

text \<open>
  The contract of \<open>Allow\<close> where the refill does not wrap around. For a bucket whose token count lies
  between 0 and its capacity and whose rate is not negative, asked at a reading of the
  clock not before \<open>lastUpdate\<close>, with a refill that fits the 64-bit integer: the call
  sets \<open>lastUpdate\<close> to the reading and the count to the smaller of the capacity and the
  old count plus the whole tokens generated since \<open>lastUpdate\<close>, as integers; when that
  count is positive it takes exactly one token from it and answers true; otherwise it answers
  false, and the count was zero before the call and is zero after it.
\<close>

theorem Allow_contract_fits:
  fixes rl :: RateLimiter and now :: Time and impl :: "float64 \<Rightarrow> int64"
  defines "refilled \<equiv> min_int (tokens rl + tokensToAdd impl (Sub now (lastUpdate rl)) (rate rl)) (burst rl)"
  assumes tok: "0 \<le> sint (tokens rl)"
    and cap: "sint (tokens rl) \<le> sint (burst rl)"
    and rt: "0 \<le> sint (rate rl)"
    and clock: "lastUpdate rl \<le> now"
    and fits: "of_int (sint (tokens rl)) + fl (Seconds (Sub now (lastUpdate rl)) * float64_of_int (rate rl)) < 2 ^ 63"
  shows "Allow impl rl now =
           (if 0 < sint refilled
            then (True, rl\<lparr>tokens := refilled - 1, lastUpdate := now\<rparr>)
            else (False, rl\<lparr>tokens := 0, lastUpdate := now\<rparr>))
         \<and> (if 0 < sint refilled
            then sint (refilled - 1) = sint refilled - 1
            else refilled = 0 \<and> tokens rl = 0)
         \<and> sint refilled
             = min (sint (tokens rl)
                    + \<lfloor>fl (Seconds (Sub now (lastUpdate rl)) * float64_of_int (rate rl))\<rfloor>)
                 (sint (burst rl))"
proof -
  let ?a = "tokensToAdd impl (Sub now (lastUpdate rl)) (rate rl)"
  note rf = refill_fits [OF tok rt clock fits, of impl]
  have sr: "sint refilled = min (sint (tokens rl) + sint ?a) (sint (burst rl))"
    by (simp add: refilled_def sint_min_int rf(3))
  have nn: "0 \<le> sint refilled"
    using sr tok cap rf(2) by simp
  have int: "sint refilled
      = min (sint (tokens rl)
             + \<lfloor>fl (Seconds (Sub now (lastUpdate rl)) * float64_of_int (rate rl))\<rfloor>)
          (sint (burst rl))"
    using sr rf(1) by simp
  have code: "Allow impl rl now =
      (if 0 < sint refilled
       then (True, rl\<lparr>tokens := refilled - 1, lastUpdate := now\<rparr>)
       else (False, rl\<lparr>tokens := refilled, lastUpdate := now\<rparr>))"
    by (simp add: Allow_def Let_def refilled_def)
  show ?thesis
  proof (cases "0 < sint refilled")
    case True
    then show ?thesis
      using code int by (simp add: sint_pred)
  next
    case False
    with nn have z: "sint refilled = 0" by simp
    then have r0: "refilled = 0" by (rule sint_zero_imp)
    have "sint (tokens rl) = 0"
      using z sr tok cap rf(2) by (simp add: min_def split: if_splits)
    then have "tokens rl = 0" by (rule sint_zero_imp)
    then show ?thesis
      using code False r0 int by simp
  qed
qed

theorem Allow_contract_fits_witness:
  "(let rl = \<lparr>rate = 2, burst = 3, tokens = 0, lastUpdate = 0\<rparr>; now = 400000000
    in 0 \<le> sint (tokens rl) \<and> sint (tokens rl) \<le> sint (burst rl) \<and> 0 \<le> sint (rate rl)
       \<and> lastUpdate rl \<le> now
       \<and> of_int (sint (tokens rl)) + fl (Seconds (Sub now (lastUpdate rl)) * float64_of_int (rate rl)) < 2 ^ 63
       \<and> Allow amd64 rl now = (False, rl\<lparr>tokens := 0, lastUpdate := now\<rparr>)
       \<and> tokens rl = 0)"
proof -
  let ?rl = "\<lparr>rate = 2, burst = 3, tokens = 0, lastUpdate = 0\<rparr> :: RateLimiter"
  have h1: "0 \<le> sint (tokens ?rl)" by simp
  have h2: "sint (tokens ?rl) \<le> sint (burst ?rl)" by simp
  have h3: "0 \<le> sint (rate ?rl)" by simp
  have h4: "lastUpdate ?rl \<le> 400000000" by simp
  have h5: "of_int (sint (tokens ?rl))
      + fl (Seconds (Sub 400000000 (lastUpdate ?rl)) * float64_of_int (rate ?rl)) < 2 ^ 63"
    by code_simp
  have t: "tokensToAdd amd64 (Sub 400000000 0) 2 = 0"
    by code_simp
  show ?thesis
    using h5 Allow_contract_fits [OF h1 h2 h3 h4 h5, of amd64]
    by (simp add: t min_int_def)
qed

text \<open>
  Claim C1 (contract of \<open>Allow\<close>), at an input where the code breaks it. A bucket created
  with rate 10 and the largest capacity an \<open>int\<close> holds is full, so at least one token is
  available; asked one second later, the call adds the ten tokens generated, the sum
  \<open>tokens + tokensToAdd\<close> wraps around below zero, and the call answers false and leaves
  a count that is not zero.
\<close>

theorem Allow_contract_overflow:
  "0 < sint (tokens (NewRateLimiter 10 9223372036854775807 0))
   \<and> sint (tokens (NewRateLimiter 10 9223372036854775807 0))
       \<le> sint (burst (NewRateLimiter 10 9223372036854775807 0))
   \<and> tokensToAdd amd64 (Sub 1000000000 (lastUpdate (NewRateLimiter 10 9223372036854775807 0))) 10 = 10
   \<and> fst (Allow amd64 (NewRateLimiter 10 9223372036854775807 0) 1000000000) = False
   \<and> tokens (snd (Allow amd64 (NewRateLimiter 10 9223372036854775807 0) 1000000000)) \<noteq> 0"
  by code_simp

section \<open>The token bucket: the bounds of the token count\<close>

lemma Allow_frame:
  "rate (snd (Allow impl rl now)) = rate rl \<and> burst (snd (Allow impl rl now)) = burst rl
   \<and> lastUpdate (snd (Allow impl rl now)) = now"
  by (simp add: Allow_def Let_def)

lemma Allow_le_burst:
  "sint (tokens (snd (Allow impl rl now))) \<le> sint (burst rl)"
proof -
  let ?t = "min_int (tokens rl + tokensToAdd impl (Sub now (lastUpdate rl)) (rate rl)) (burst rl)"
  have le: "sint ?t \<le> sint (burst rl)"
    by (simp add: sint_min_int)
  show ?thesis
  proof (cases "0 < sint ?t")
    case True
    then have "sint (?t - 1) = sint ?t - 1" by (rule sint_pred)
    with le True show ?thesis by (simp add: Allow_def Let_def)
  next
    case False
    with le show ?thesis by (simp add: Allow_def Let_def)
  qed
qed

text \<open>
  Cap enforcement. Whatever the bucket and however long it was idle, a call of \<open>Allow\<close>
  leaves a token count that does not exceed the capacity.
\<close>

theorem cap_enforcement:
  "sint (tokens (snd (Allow impl rl now))) \<le> sint (burst rl)
   \<and> burst (snd (Allow impl rl now)) = burst rl"
  by (simp add: Allow_le_burst Allow_frame)

lemma Allow_bounds_step:
  assumes tok: "0 \<le> sint (tokens rl)" and cap: "sint (tokens rl) \<le> sint (burst rl)"
    and rt: "0 \<le> sint (rate rl)" and clock: "lastUpdate rl \<le> now"
    and fits: "of_int (sint (burst rl)) + fl (Seconds (Sub now (lastUpdate rl)) * float64_of_int (rate rl)) < 2 ^ 63"
  shows "0 \<le> sint (tokens (snd (Allow impl rl now)))"
proof -
  let ?a = "tokensToAdd impl (Sub now (lastUpdate rl)) (rate rl)"
  let ?t = "min_int (tokens rl + ?a) (burst rl)"
  have "(of_int (sint (tokens rl)) :: rat) \<le> of_int (sint (burst rl))"
    using cap by (simp only: of_int_le_iff)
  with fits have f: "of_int (sint (tokens rl)) + fl (Seconds (Sub now (lastUpdate rl)) * float64_of_int (rate rl)) < 2 ^ 63"
    by linarith
  note rf = refill_fits [OF tok rt clock f, of impl]
  have nn: "0 \<le> sint ?t"
    using tok cap rf(2) by (simp add: sint_min_int rf(3))
  show ?thesis
  proof (cases "0 < sint ?t")
    case True
    then have "sint (?t - 1) = sint ?t - 1" by (rule sint_pred)
    with True show ?thesis by (simp add: Allow_def Let_def)
  next
    case False
    with nn show ?thesis by (simp add: Allow_def Let_def)
  qed
qed

lemma Allow_calls_bounds:
  "0 \<le> sint (tokens rl) \<Longrightarrow> sint (tokens rl) \<le> sint (burst rl) \<Longrightarrow> 0 \<le> sint (rate rl) \<Longrightarrow>
   refills_fit (rate rl) (burst rl) (lastUpdate rl) nows \<Longrightarrow>
   0 \<le> sint (tokens (snd (Allow_calls impl rl nows)))
   \<and> sint (tokens (snd (Allow_calls impl rl nows))) \<le> sint (burst rl)"
proof (induction nows arbitrary: rl)
  case Nil
  then show ?case by simp
next
  case (Cons now nows)
  let ?rl' = "snd (Allow impl rl now)"
  have fr: "rate ?rl' = rate rl" "burst ?rl' = burst rl" "lastUpdate ?rl' = now"
    using Allow_frame [of impl rl now] by simp_all
  have clock: "lastUpdate rl \<le> now"
    and fits: "of_int (sint (burst rl)) + fl (Seconds (Sub now (lastUpdate rl)) * float64_of_int (rate rl)) < 2 ^ 63"
    and rest: "refills_fit (rate rl) (burst rl) now nows"
    using Cons.prems(4) by simp_all
  have lo: "0 \<le> sint (tokens ?rl')"
    using Cons.prems(1,2,3) clock fits by (rule Allow_bounds_step)
  have hi: "sint (tokens ?rl') \<le> sint (burst ?rl')"
    using Allow_le_burst [of impl rl now] fr by simp
  have "0 \<le> sint (tokens (snd (Allow_calls impl ?rl' nows)))
      \<and> sint (tokens (snd (Allow_calls impl ?rl' nows))) \<le> sint (burst ?rl')"
    using lo hi Cons.prems(3) rest by (intro Cons.IH) (simp_all add: fr)
  moreover have "snd (Allow_calls impl rl (now # nows)) = snd (Allow_calls impl ?rl' nows)"
    by (cases "Allow impl rl now"; cases "Allow_calls impl (snd (Allow impl rl now)) nows") simp
  ultimately show ?case
    by (simp only: fr)
qed

text \<open>
  The bounds of the token count, where no refill wraps around. A bucket created with
  positive rate and capacity, asked any number of times at readings of the clock that
  never go back, keeps its count between 0 and the capacity, provided that at each
  call the capacity plus the tokens generated since the previous call is below
  \<open>2 ^ 63\<close>.
\<close>

theorem token_bounds_without_overflow:
  assumes "0 < sint r" and "0 < sint b" and "refills_fit r b t0 nows"
  shows "0 \<le> sint (tokens (snd (Allow_calls impl (NewRateLimiter r b t0) nows)))
       \<and> sint (tokens (snd (Allow_calls impl (NewRateLimiter r b t0) nows))) \<le> sint b"
  using Allow_calls_bounds [of "NewRateLimiter r b t0" nows impl] assms
  by (simp add: NewRateLimiter_def)

theorem token_bounds_without_overflow_witness:
  "0 < sint (10 :: int64) \<and> 0 < sint (20 :: int64)
   \<and> refills_fit 10 20 0 [0, 100000000, 5000000000]
   \<and> 0 \<le> sint (tokens (snd (Allow_calls amd64 (NewRateLimiter 10 20 0) [0, 100000000, 5000000000])))
   \<and> sint (tokens (snd (Allow_calls amd64 (NewRateLimiter 10 20 0) [0, 100000000, 5000000000])))
       \<le> sint (20 :: int64)"
proof -
  have h1: "0 < sint (10 :: int64)" by simp
  have h2: "0 < sint (20 :: int64)" by simp
  have f1: "rat_of_int (sint (20 :: int64)) + fl (Seconds (Sub 0 0) * float64_of_int 10) < 2 ^ 63"
    by code_simp
  have f2: "rat_of_int (sint (20 :: int64)) + fl (Seconds (Sub 100000000 0) * float64_of_int 10) < 2 ^ 63"
    by code_simp
  have f3: "rat_of_int (sint (20 :: int64)) + fl (Seconds (Sub 5000000000 100000000) * float64_of_int 10) < 2 ^ 63"
    by code_simp
  have h3: "refills_fit 10 20 0 [0, 100000000, 5000000000]"
    using f1 f2 f3 by simp
  show ?thesis
    using h1 h2 h3 token_bounds_without_overflow [OF h1 h2 h3, of amd64] by blast
qed

text \<open>
  Claim C3 (token-bound invariant), at two inputs where the code leaves the bounds.
  A bucket created with rate 10 and the largest capacity an \<open>int\<close> holds, asked one
  second later: the refill \<open>tokens + tokensToAdd\<close> is \<open>(2 ^ 63 - 1) + 10\<close>, which wraps
  around to a negative number; the call is refused and the count stays negative. The
  same happens to a bucket created with rate and capacity \<open>2 ^ 62\<close>, whose refill after
  one second is \<open>2 ^ 62 + 2 ^ 62\<close>.
\<close>

theorem token_bound_overflow:
  "sint (burst (NewRateLimiter 10 9223372036854775807 0)) = 2 ^ 63 - 1
   \<and> fst (Allow amd64 (NewRateLimiter 10 9223372036854775807 0) 1000000000) = False
   \<and> sint (tokens (snd (Allow amd64 (NewRateLimiter 10 9223372036854775807 0) 1000000000)))
       = - 9223372036854775799
   \<and> fst (Allow amd64 (NewRateLimiter (2 ^ 62) (2 ^ 62) 0) 1000000000) = False
   \<and> sint (tokens (snd (Allow amd64 (NewRateLimiter (2 ^ 62) (2 ^ 62) 0) 1000000000))) = - (2 ^ 63)"
  by code_simp

section \<open>The token bucket: burst admission\<close>

lemma min_int_le: "sint a \<le> sint b \<Longrightarrow> min_int a b = a"
proof -
  assume le: "sint a \<le> sint b"
  show ?thesis
  proof (cases "sint a < sint b")
    case True
    then show ?thesis by (simp add: min_int_def)
  next
    case False
    with le have "sint a = sint b" by simp
    then have "a = b" by (rule signed_word_eqI)
    then show ?thesis by (simp add: min_int_def)
  qed
qed

lemma Allow_no_elapsed:
  "sint (tokens rl) \<le> sint (burst rl) \<Longrightarrow>
   Allow impl rl (lastUpdate rl) =
     (if 0 < sint (tokens rl) then (True, rl\<lparr>tokens := tokens rl - 1\<rparr>) else (False, rl))"
  by (simp add: Allow_def Sub_same tokensToAdd_zero min_int_le Let_def)

lemma burst_run:
  "lastUpdate rl = t0 \<Longrightarrow> sint (tokens rl) = int k \<Longrightarrow> sint (tokens rl) \<le> sint (burst rl) \<Longrightarrow>
   fst (Allow_calls impl rl (replicate (k + 1) t0)) = replicate k True @ [False]"
proof (induction k arbitrary: rl)
  case 0
  then have "Allow impl rl t0 = (False, rl)"
    using Allow_no_elapsed [of rl impl] by simp
  then show ?case
    by simp
next
  case (Suc k)
  let ?rl' = "rl\<lparr>tokens := tokens rl - 1\<rparr>"
  have pos: "0 < sint (tokens rl)"
    using Suc.prems by simp
  have step: "Allow impl rl t0 = (True, ?rl')"
    using Suc.prems pos Allow_no_elapsed [of rl impl] by simp
  have dec: "sint (tokens ?rl') = int k"
    using pos Suc.prems by (simp add: sint_pred)
  have "fst (Allow_calls impl ?rl' (replicate (k + 1) t0)) = replicate k True @ [False]"
    using Suc.prems dec by (intro Suc.IH) simp_all
  then show ?case
    using step by (simp split: prod.splits)
qed

text \<open>
  Claim C2 (burst admission). A bucket created with a positive capacity \<open>C\<close> and a
  positive rate, asked \<open>C + 1\<close> times in a row at the very instant of its creation (no
  time elapses, so no call refills it), answers true to the first \<open>C\<close> calls and false
  to the call after them.
\<close>

theorem burst_admission:
  assumes "0 < sint C" and "0 < sint r"
  shows "fst (Allow_calls impl (NewRateLimiter r C t0) (replicate (nat (sint C) + 1) t0))
         = replicate (nat (sint C)) True @ [False]"
  using assms by (intro burst_run) (simp_all add: NewRateLimiter_def)

theorem burst_admission_witness:
  "0 < sint (3 :: int64) \<and> 0 < sint (1 :: int64) \<and>
   fst (Allow_calls amd64 (NewRateLimiter 1 3 0) [0, 0, 0, 0]) = [True, True, True, False]"
  using burst_admission [of 3 1 amd64 0] by (simp add: numeral_eq_Suc)

section \<open>Wait: the delay between two attempts\<close>

lemma Allow_rate: "rate (snd (Allow impl rl now)) = rate rl"
  by (simp add: Allow_def Let_def)

lemma retry_delay_pos:
  assumes "0 < sint r"
  shows "retry_delay r = Inr (word_of_int ((1000 div sint r) * 1000000))"
proof -
  have "r \<noteq> 0" using assms by auto
  moreover have "1000 sdiv sint r = 1000 div sint r"
    using assms by (simp add: signed_divide_int_def sgn_if)
  ultimately show ?thesis
    by (simp add: retry_delay_def Millisecond_def)
qed

lemma Wait_sleeps:
  "0 < sint (rate rl) \<Longrightarrow> d \<in> set (snd (fst (Wait impl rl nows))) \<Longrightarrow>
   d = word_of_int ((1000 div sint (rate rl)) * 1000000)"
proof (induction nows arbitrary: rl)
  case Nil
  then show ?case by simp
next
  case (Cons now nows)
  obtain ok rl' where a: "Allow impl rl now = (ok, rl')"
    by (cases "Allow impl rl now")
  then have r': "rate rl' = rate rl"
    using Allow_rate [of impl rl now] by simp
  show ?case
  proof (cases ok)
    case True
    with Cons.prems a show ?thesis by simp
  next
    case False
    obtain out ds rl'' where w: "Wait impl rl' nows = ((out, ds), rl'')"
      by (metis prod.exhaust)
    have rd: "retry_delay (rate rl') = Inr (word_of_int ((1000 div sint (rate rl)) * 1000000))"
      using retry_delay_pos [of "rate rl'"] Cons.prems(1) r' by simp
    from Cons.prems(2) a False w rd
    have "d = word_of_int ((1000 div sint (rate rl)) * 1000000) \<or> d \<in> set ds"
      by auto
    then show ?thesis
    proof
      assume "d \<in> set ds"
      then have "d \<in> set (snd (fst (Wait impl rl' nows)))" using w by simp
      then show ?thesis
        using Cons.IH [of rl'] Cons.prems(1) r' by simp
    qed simp
  qed
qed

text \<open>
  Claim C6 (retry delay). For a bucket with a positive rate, the delay \<open>Wait\<close> computes
  is \<open>1000 / rate\<close> milliseconds with the quotient truncated to a whole number, and every
  sleep of a run of \<open>Wait\<close>, however the clock reads, lasts exactly that long; for a
  rate above 1000 each of them is zero.
\<close>

theorem retry_delay_truncated:
  assumes "0 < sint (rate rl)"
  shows "retry_delay (rate rl) = Inr (word_of_int ((1000 div sint (rate rl)) * 1000000))
       \<and> (\<forall>d \<in> set (snd (fst (Wait impl rl nows))).
             sint d = (1000 div sint (rate rl)) * 1000000
             \<and> (1000 < sint (rate rl) \<longrightarrow> d = 0))"
proof (intro conjI ballI)
  show "retry_delay (rate rl) = Inr (word_of_int ((1000 div sint (rate rl)) * 1000000))"
    using assms by (rule retry_delay_pos)
next
  fix d assume "d \<in> set (snd (fst (Wait impl rl nows)))"
  then have d: "d = word_of_int ((1000 div sint (rate rl)) * 1000000)"
    using assms Wait_sleeps by blast
  have "0 \<le> 1000 div sint (rate rl)"
    using assms by (simp add: pos_imp_zdiv_nonneg_iff)
  moreover have "1000 div sint (rate rl) \<le> 1000"
    using assms by (metis div_by_1 zdiv_mono2 zero_le_numeral zero_less_one int_one_le_iff_zero_less)
  ultimately have "MinInt64 \<le> (1000 div sint (rate rl)) * 1000000"
    and "(1000 div sint (rate rl)) * 1000000 \<le> MaxInt64"
    by (simp_all add: MinInt64_def MaxInt64_def)
  then show "sint d = (1000 div sint (rate rl)) * 1000000"
    unfolding d by (rule sint_of_int64)
next
  fix d assume "d \<in> set (snd (fst (Wait impl rl nows)))"
  then have d: "d = word_of_int ((1000 div sint (rate rl)) * 1000000)"
    using assms Wait_sleeps by blast
  show "1000 < sint (rate rl) \<longrightarrow> d = 0"
    unfolding d by simp
qed

theorem retry_delay_truncated_witness:
  "0 < sint (rate \<lparr>rate = 3, burst = 0, tokens = 0, lastUpdate = 0\<rparr>)
   \<and> retry_delay 3 = Inr 333000000
   \<and> snd (fst (Wait amd64 \<lparr>rate = 3, burst = 0, tokens = 0, lastUpdate = 0\<rparr> [0, 1])) = [333000000, 333000000]
   \<and> sint (333000000 :: int64) = (1000 div 3) * 1000000"
proof -
  let ?rl = "\<lparr>rate = 3, burst = 0, tokens = 0, lastUpdate = 0\<rparr> :: RateLimiter"
  have h: "0 < sint (rate ?rl)" by simp
  have w: "snd (fst (Wait amd64 ?rl [0, 1])) = [333000000, 333000000]"
    by code_simp
  show ?thesis
    using h w retry_delay_truncated [OF h, of amd64 "[0, 1]"] by simp
qed

section \<open>Statistics: the counters\<close>

lemma apply_op_total:
  "TotalRequests s = AllowedRequests s + DeniedRequests s \<Longrightarrow>
   TotalRequests (apply_op s e) = AllowedRequests (apply_op s e) + DeniedRequests (apply_op s e)"
  by (cases e; cases "fst e") (simp_all add: RecordAllowed_def RecordDenied_def Reset_def)

lemma apply_ops_total:
  "TotalRequests s = AllowedRequests s + DeniedRequests s \<Longrightarrow>
   TotalRequests (apply_ops s es) = AllowedRequests (apply_ops s es) + DeniedRequests (apply_ops s es)"
  unfolding apply_ops_def
  by (induction es arbitrary: s) (simp_all add: apply_op_total del: apply_op.simps)

text \<open>
  Claim C7 (stats consistency). After any run of \<open>RecordAllowed\<close>, \<open>RecordDenied\<close> and
  \<open>Reset\<close> on a fresh \<open>Stats\<close>, \<open>TotalRequests == AllowedRequests + DeniedRequests\<close> holds
  (in Go's 64-bit arithmetic), and each of the two recording calls adds one to its own
  counter and one to the total, and leaves the other counter as it was.
\<close>

theorem stats_consistency:
  "TotalRequests (apply_ops (NewStats t0) es)
     = AllowedRequests (apply_ops (NewStats t0) es) + DeniedRequests (apply_ops (NewStats t0) es)
   \<and> TotalRequests (RecordAllowed s now) = TotalRequests s + 1
   \<and> AllowedRequests (RecordAllowed s now) = AllowedRequests s + 1
   \<and> DeniedRequests (RecordAllowed s now) = DeniedRequests s
   \<and> TotalRequests (RecordDenied s now) = TotalRequests s + 1
   \<and> DeniedRequests (RecordDenied s now) = DeniedRequests s + 1
   \<and> AllowedRequests (RecordDenied s now) = AllowedRequests s"
proof -
  have "TotalRequests (NewStats t0) = AllowedRequests (NewStats t0) + DeniedRequests (NewStats t0)"
    by (simp add: NewStats_def)
  then show ?thesis
    by (simp add: apply_ops_total RecordAllowed_def RecordDenied_def)
qed

section \<open>The decorator does not interfere\<close>

text \<open>
  Claim C9 (decorator non-interference). For every wrapped limiter, whatever its
  \<open>Allow\<close> does, \<open>RateLimiterWithStats.Allow\<close> answers what the wrapped call answers and
  leaves the wrapped limiter in the state the direct call leaves it in; it records one
  allowed event when the answer is true and none otherwise, and one denied event when
  it is false and none otherwise.
\<close>

theorem decorator_non_interference:
  "fst (Allow_with_stats allow r now) = fst (allow (limiter r))
   \<and> limiter (snd (Allow_with_stats allow r now)) = snd (allow (limiter r))
   \<and> stats (snd (Allow_with_stats allow r now))
       = (if fst (allow (limiter r)) then RecordAllowed (stats r) now else RecordDenied (stats r) now)
   \<and> AllowedRequests (stats (snd (Allow_with_stats allow r now)))
       = AllowedRequests (stats r) + (if fst (allow (limiter r)) then 1 else 0)
   \<and> DeniedRequests (stats (snd (Allow_with_stats allow r now)))
       = DeniedRequests (stats r) + (if fst (allow (limiter r)) then 0 else 1)"
  by (cases "allow (limiter r)") (simp add: Allow_with_stats_def RecordAllowed_def RecordDenied_def)

section \<open>The token bucket: whole tokens only\<close>

lemma trunc_error:
  "\<bar>x - of_int (if 0 \<le> x then \<lfloor>x\<rfloor> else \<lceil>x\<rceil>)\<bar> < (1 :: rat)"
proof (cases "0 \<le> x")
  case True
  have "of_int \<lfloor>x\<rfloor> \<le> x" "x < of_int \<lfloor>x\<rfloor> + 1"
    using floor_correct [of x] by simp_all
  with True show ?thesis by simp
next
  case False
  have "of_int \<lceil>x\<rceil> - 1 < x" "x \<le> of_int \<lceil>x\<rceil>"
    using ceiling_correct [of x] by simp_all
  with False show ?thesis by simp
qed

text \<open>
  Claim C5, as amended (fractional accumulation). The token count is a Go \<open>int\<close>, a whole
  number, not a real one. Every call of \<open>Allow\<close>, on every bucket and at every reading of
  the clock, moves \<open>lastUpdate\<close> to the reading and adds \<open>a\<close> to the count in 64-bit
  arithmetic before capping it and taking the token it grants, where \<open>a\<close> is \<open>n\<close>, the
  \<open>float64\<close> product \<open>x\<close> of the seconds elapsed and the rate with its fraction dropped,
  whenever \<open>n\<close> fits the integer, and the value the implementation gives the conversion
  when it does not. The bucket after the call depends on the time elapsed through \<open>a\<close>
  alone: the fraction \<open>x - n\<close> of a token, less than one, is discarded and not kept for
  the next refill. Where \<open>n\<close> fits and the sum does not wrap around, the count before the
  token is taken is the integer \<open>min (tokens + n) burst\<close>.
\<close>

theorem refill_truncates:
  "(let x = fl (Seconds (Sub now (lastUpdate rl)) * float64_of_int (rate rl));
        n = (if 0 \<le> x then \<lfloor>x\<rfloor> else \<lceil>x\<rceil>);
        a = (if MinInt64 \<le> n \<and> n \<le> MaxInt64 then word_of_int n else impl x);
        t = min_int (tokens rl + a) (burst rl)
    in Allow impl rl now
         = (if 0 < sint t then (True, rl\<lparr>tokens := t - 1, lastUpdate := now\<rparr>)
            else (False, rl\<lparr>tokens := t, lastUpdate := now\<rparr>))
       \<and> \<bar>x - of_int n\<bar> < 1
       \<and> (MinInt64 \<le> n \<and> n \<le> MaxInt64
            \<and> MinInt64 \<le> sint (tokens rl) + n \<and> sint (tokens rl) + n \<le> MaxInt64
          \<longrightarrow> sint a = n \<and> sint t = min (sint (tokens rl) + n) (sint (burst rl))))"
proof -
  define x where "x = fl (Seconds (Sub now (lastUpdate rl)) * float64_of_int (rate rl))"
  define n where "n = (if 0 \<le> x then \<lfloor>x\<rfloor> else \<lceil>x\<rceil>)"
  define a where "a = (if MinInt64 \<le> n \<and> n \<le> MaxInt64 then word_of_int n else impl x)"
  define t where "t = min_int (tokens rl + a) (burst rl)"
  have ta: "tokensToAdd impl (Sub now (lastUpdate rl)) (rate rl) = a"
    by (auto simp: a_def n_def x_def tokensToAdd_def int_of_float64_def Let_def)
  have A: "Allow impl rl now
      = (if 0 < sint t then (True, rl\<lparr>tokens := t - 1, lastUpdate := now\<rparr>)
         else (False, rl\<lparr>tokens := t, lastUpdate := now\<rparr>))"
    by (simp add: Allow_def Let_def ta t_def)
  have B: "\<bar>x - of_int n\<bar> < 1"
    unfolding n_def by (rule trunc_error)
  have C: "sint a = n \<and> sint t = min (sint (tokens rl) + n) (sint (burst rl))"
    if fit: "MinInt64 \<le> n \<and> n \<le> MaxInt64
      \<and> MinInt64 \<le> sint (tokens rl) + n \<and> sint (tokens rl) + n \<le> MaxInt64"
  proof -
    have an: "sint a = n"
      using fit sint_of_int64 [of n] by (simp add: a_def)
    have "sint (tokens rl + a) = sint (tokens rl) + sint a"
      using fit an by (intro sint_add_fits) simp_all
    with an show ?thesis
      by (simp add: t_def sint_min_int)
  qed
  from A B C show ?thesis
    unfolding Let_def t_def a_def n_def x_def by blast
qed

theorem refill_truncates_witness:
  "fl (Seconds (Sub 500000000 (lastUpdate \<lparr>rate = 3, burst = 5, tokens = 2, lastUpdate = 0\<rparr>))
         * float64_of_int (rate \<lparr>rate = 3, burst = 5, tokens = 2, lastUpdate = 0\<rparr>)) = 3 / 2
   \<and> MinInt64 \<le> 1 \<and> 1 \<le> MaxInt64
   \<and> MinInt64 \<le> sint (tokens \<lparr>rate = 3, burst = 5, tokens = 2, lastUpdate = 0\<rparr>) + 1
   \<and> sint (tokens \<lparr>rate = 3, burst = 5, tokens = 2, lastUpdate = 0\<rparr>) + 1 \<le> MaxInt64
   \<and> Allow amd64 \<lparr>rate = 3, burst = 5, tokens = 2, lastUpdate = 0\<rparr> 500000000
       = (True, \<lparr>rate = 3, burst = 5, tokens = 2, lastUpdate = 500000000\<rparr>)
   \<and> sint (min_int (tokens \<lparr>rate = 3, burst = 5, tokens = 2, lastUpdate = 0\<rparr> + 1) 5) = min (2 + 1) 5"
proof -
  let ?rl = "\<lparr>rate = 3, burst = 5, tokens = 2, lastUpdate = 0\<rparr> :: RateLimiter"
  have x: "fl (Seconds (Sub 500000000 (lastUpdate ?rl)) * float64_of_int (rate ?rl)) = 3 / 2"
    by code_simp
  have f: "\<lfloor>3 / 2 :: rat\<rfloor> = 1"
    by code_simp
  have r: "MinInt64 \<le> 1 \<and> 1 \<le> MaxInt64
      \<and> MinInt64 \<le> sint (tokens ?rl) + 1 \<and> sint (tokens ?rl) + 1 \<le> MaxInt64"
    by (simp add: MinInt64_def MaxInt64_def)
  show ?thesis
    using refill_truncates [of 500000000 ?rl amd64] r
    unfolding Let_def x by (simp add: f min_int_def)
qed

text \<open>
  The count is not a real number and fractions are not retained: at one token per
  second, an emptied bucket asked after half a second and again after one second
  refuses both calls, each refill truncating half a token to none, while the same
  bucket asked only after the full second grants the call.
\<close>

theorem fractional_tokens_counterexample:
  "fst (Allow_calls amd64 (NewRateLimiter 1 1 0) [0, 500000000, 1000000000]) = [True, False, False]
   \<and> fst (Allow_calls amd64 (NewRateLimiter 1 1 0) [0, 1000000000]) = [True, True]
   \<and> tokens (snd (Allow_calls amd64 (NewRateLimiter 1 1 0) [0, 500000000])) = 0"
proof -
  let ?e = "\<lparr>rate = 1, burst = 1, tokens = 0, lastUpdate = 0\<rparr> :: RateLimiter"
  let ?h = "\<lparr>rate = 1, burst = 1, tokens = 0, lastUpdate = 500000000\<rparr> :: RateLimiter"
  let ?f = "\<lparr>rate = 1, burst = 1, tokens = 0, lastUpdate = 1000000000\<rparr> :: RateLimiter"
  have a1: "Allow amd64 (NewRateLimiter 1 1 0) 0 = (True, ?e)"
    by code_simp
  have a2: "Allow amd64 ?e 500000000 = (False, ?h)"
    by code_simp
  have a3: "Allow amd64 ?h 1000000000 = (False, ?f)"
    by code_simp
  have a4: "Allow amd64 ?e 1000000000 = (True, ?f)"
    by code_simp
  show ?thesis
    by (simp add: a1 a2 a3 a4)
qed

section \<open>Statistics: the snapshot\<close>

text \<open>
  Claim C8, as amended (snapshot derived fields). \<open>GetSnapshot\<close> changes nothing in the
  \<open>Stats\<close> and computes, for every state: the duration, which is
  \<open>LastRequestTime - StartTime\<close> (and so \<open>max(0, LastRequestTime - StartTime)\<close>, up to
  the range of a \<open>Duration\<close>) when \<open>LastRequestTime\<close> is strictly after \<open>StartTime\<close>, and
  the time elapsed since \<open>StartTime\<close> otherwise, also when events have been recorded;
  \<open>Rate\<close>, the \<open>float64\<close> quotient of the allowed count by the duration in seconds, and
  0 when the duration is not positive; \<open>AcceptanceRatio\<close>, the \<open>float64\<close> quotient of
  the allowed count by the total, and 0 when the total is 0; and the three counters as
  they are.
\<close>

theorem snapshot_derived_fields:
  "snap_Duration (GetSnapshot s now)
     = (if StartTime s < LastRequestTime s
        then Sub (LastRequestTime s) (StartTime s) else Sub now (StartTime s))
   \<and> (if StartTime s < LastRequestTime s
      then sint (snap_Duration (GetSnapshot s now))
             = max 0 (min MaxInt64 (LastRequestTime s - StartTime s))
      else sint (snap_Duration (GetSnapshot s now))
             = max MinInt64 (min MaxInt64 (now - StartTime s)))
   \<and> snap_Rate (GetSnapshot s now)
       = (if 0 < Seconds (snap_Duration (GetSnapshot s now))
          then fl (float64_of_int (AllowedRequests s) / Seconds (snap_Duration (GetSnapshot s now)))
          else 0)
   \<and> (snap_Duration (GetSnapshot s now) = 0 \<longrightarrow> snap_Rate (GetSnapshot s now) = 0)
   \<and> snap_AcceptanceRatio (GetSnapshot s now)
       = (if TotalRequests s = 0 then 0
          else fl (float64_of_int (AllowedRequests s) / float64_of_int (TotalRequests s)))
   \<and> snap_TotalRequests (GetSnapshot s now) = TotalRequests s
   \<and> snap_AllowedRequests (GetSnapshot s now) = AllowedRequests s
   \<and> snap_DeniedRequests (GetSnapshot s now) = DeniedRequests s"
  by (simp add: GetSnapshot_def Let_def After_def calculateAcceptanceRatio_def sint_Sub
      Seconds_zero MinInt64_def MaxInt64_def)

theorem snapshot_derived_fields_witness:
  "snap_Duration (GetSnapshot (NewStats 1000) 1000) = 0
   \<and> snap_Rate (GetSnapshot (NewStats 1000) 1000) = 0
   \<and> snap_AcceptanceRatio (GetSnapshot (NewStats 1000) 1000) = 0
   \<and> snap_Duration (GetSnapshot (RecordDenied (RecordAllowed (NewStats 1000) 2000) 4000001000) 5000001000)
       = 4000000000
   \<and> snap_Rate (GetSnapshot (RecordDenied (RecordAllowed (NewStats 1000) 2000) 4000001000) 5000001000)
       = 1 / 4
   \<and> snap_AcceptanceRatio (GetSnapshot (RecordDenied (RecordAllowed (NewStats 1000) 2000) 4000001000) 5000001000)
       = 1 / 2"
proof -
  let ?s = "RecordDenied (RecordAllowed (NewStats 1000) 2000) 4000001000"
  have s: "StartTime ?s = 1000" "LastRequestTime ?s = 4000001000" "AllowedRequests ?s = 1"
    "TotalRequests ?s = 2"
    by (simp_all add: NewStats_def RecordAllowed_def RecordDenied_def)
  have n: "StartTime (NewStats 1000) = 1000" "LastRequestTime (NewStats 1000) = 0"
    "TotalRequests (NewStats 1000) = 0"
    by (simp_all add: NewStats_def zeroTime_def)
  have d: "Sub 4000001000 1000 = 4000000000" "Sub 1000 1000 = 0"
    by (simp_all add: Sub_def MinInt64_def MaxInt64_def)
  have r: "Seconds 4000000000 = 4" "fl (float64_of_int 1 / 4) = 1 / 4"
    "fl (float64_of_int 1 / float64_of_int 2) = 1 / 2"
    by code_simp+
  show ?thesis
    using snapshot_derived_fields [of ?s 5000001000] snapshot_derived_fields [of "NewStats 1000" 1000]
    by (simp add: s n d r Seconds_zero)
qed

text \<open>
  With an event recorded, the duration is not always \<open>max(0, lastActivity - startTime)\<close>:
  an event recorded at the very reading of the clock the \<open>Stats\<close> was created at leaves
  \<open>LastRequestTime\<close> equal to \<open>StartTime\<close>, and a snapshot five seconds later reports a
  duration of five seconds and a rate of 0.2 per second, not zero.
\<close>

theorem snapshot_duration_counterexample:
  "TotalRequests (RecordAllowed (NewStats 1000) 1000) = 1
   \<and> max 0 (LastRequestTime (RecordAllowed (NewStats 1000) 1000)
             - StartTime (RecordAllowed (NewStats 1000) 1000)) = 0
   \<and> sint (snap_Duration (GetSnapshot (RecordAllowed (NewStats 1000) 1000) 5000001000)) = 5000000000
   \<and> snap_Rate (GetSnapshot (RecordAllowed (NewStats 1000) 1000) 5000001000)
       = 3602879701896397 / 18014398509481984"
  by code_simp

section \<open>The per-key middleware: one limiter per key\<close>

lemma MiddlewareFunc_eq: "MiddlewareFunc allow next st r = Middleware allow next st r"
  by (simp add: MiddlewareFunc_def Middleware_def)

lemma LoadOrStore_result:
  "LoadOrStore m key val = ((actual, loaded), m') \<Longrightarrow> m \<subseteq>\<^sub>m m' \<and> m' key = Some actual"
  by (auto simp: LoadOrStore_def map_le_def split: option.splits)

lemma holds_stored_mono: "m \<subseteq>\<^sub>m m' \<Longrightarrow> holds_stored m h \<Longrightarrow> holds_stored m' h"
  by (cases h) (auto simp: map_le_def dom_def)

lemma handler_step_inv:
  assumes "handler_step allow next (rl, w) h = (h', rl', w')"
    and "holds_stored (limiters rl) h"
  shows "limiters rl \<subseteq>\<^sub>m limiters rl' \<and> holds_stored (limiters rl') h'"
proof (cases h)
  case (Candidate r key candidate)
  obtain actual loaded m where l: "LoadOrStore (limiters rl) key candidate = ((actual, loaded), m)"
    by (metis prod.exhaust)
  with assms(1) Candidate have "h' = Loaded r key actual" "limiters rl' = m"
    by (auto simp: handler_step_def)
  then show ?thesis
    using LoadOrStore_result [OF l] by simp
qed (use assms in \<open>auto simp: handler_step_def split: prod.splits if_splits\<close>)

lemma run_inv:
  "\<forall>h\<in>set hs. holds_stored (limiters rl) h \<Longrightarrow>
   run allow next ((rl, w), hs) sched = ((rl', w'), hs') \<Longrightarrow>
   limiters rl \<subseteq>\<^sub>m limiters rl' \<and> (\<forall>h\<in>set hs'. holds_stored (limiters rl') h)"
proof (induction sched arbitrary: rl w hs)
  case Nil
  then show ?case by simp
next
  case (Cons i sched)
  show ?case
  proof (cases "i < length hs")
    case False
    with Cons.prems(2) have "run allow next ((rl, w), hs) sched = ((rl', w'), hs')"
      by simp
    with Cons.prems(1) show ?thesis
      by (rule Cons.IH)
  next
    case True
    obtain h1 rl1 w1 where st: "handler_step allow next (rl, w) (hs ! i) = (h1, rl1, w1)"
      by (metis prod.exhaust)
    have hi: "holds_stored (limiters rl) (hs ! i)"
      using Cons.prems(1) True by simp
    note si = handler_step_inv [OF st hi]
    have le: "limiters rl \<subseteq>\<^sub>m limiters rl1"
      using si by (rule conjunct1)
    have new: "holds_stored (limiters rl1) h1"
      using si by (rule conjunct2)
    have inv1: "\<forall>h\<in>set (hs[i := h1]). holds_stored (limiters rl1) h"
    proof
      fix h assume "h \<in> set (hs[i := h1])"
      then have "h = h1 \<or> h \<in> set hs"
        using set_update_subset_insert [of hs i h1] by auto
      then show "holds_stored (limiters rl1) h"
        using new le Cons.prems(1) holds_stored_mono by blast
    qed
    have "run allow next ((rl1, w1), hs[i := h1]) sched = ((rl', w'), hs')"
      using Cons.prems(2) True st by simp
    with inv1 have "limiters rl1 \<subseteq>\<^sub>m limiters rl' \<and> (\<forall>h\<in>set hs'. holds_stored (limiters rl') h)"
      by (rule Cons.IH)
    with le show ?thesis
      using map_le_trans by blast
  qed
qed

lemma Middleware_run:
  "run allow next ((rl, w), [Arrived r]) [0, 0, 0, 0]
     = (case Middleware allow next (rl, w) r of (resp, rl', w') \<Rightarrow> ((rl', w'), [Responded resp]))"
  by (simp add: handler_step_def Middleware_def Let_def split: prod.splits)

lemma allow_order_phase:
  "j \<in> set (allow_order ps sched) \<Longrightarrow> j < length ps \<and> ps ! j \<le> 2"
proof (induction sched arbitrary: ps)
  case Nil
  then show ?case by simp
next
  case (Cons i sched)
  show ?case
  proof (cases "i < length ps")
    case False
    with Cons show ?thesis by simp
  next
    case True
    let ?ps = "ps[i := min 4 (Suc (ps ! i))]"
    from Cons.prems True
    have "(j = i \<and> ps ! i = 2) \<or> j \<in> set (allow_order ?ps sched)"
      by (auto split: if_splits)
    then show ?thesis
    proof
      assume "j = i \<and> ps ! i = 2"
      with True show ?thesis by simp
    next
      assume "j \<in> set (allow_order ?ps sched)"
      then have j: "j < length ?ps \<and> ?ps ! j \<le> 2"
        by (rule Cons.IH)
      then show ?thesis
        using True by (cases "j = i") (auto simp: min_def split: if_splits)
    qed
  qed
qed

lemma handler_step_fields:
  "handler_step allow next (rl, w) h = (h', rl', w') \<Longrightarrow>
   limiterFactory rl' = limiterFactory rl \<and> keyFunc rl' = keyFunc rl \<and> errorHandler rl' = errorHandler rl"
  by (cases h) (auto simp: handler_step_def split: prod.splits if_splits)

lemma handler_step_phase:
  "handler_step allow next (rl, w) h = (h', rl', w') \<Longrightarrow> phase h' = min 4 (Suc (phase h))"
  by (cases h) (auto simp: handler_step_def split: prod.splits if_splits)

lemma handler_step_key:
  "handler_step allow next (rl, w) h = (h', rl', w') \<Longrightarrow> phase h' \<le> 2 \<Longrightarrow>
   handler_key (keyFunc rl) h' = handler_key (keyFunc rl) h"
  by (cases h) (auto simp: handler_step_def split: prod.splits if_splits)

lemma handler_step_asked:
  assumes alw: "\<And>l w. asked (snd (allow l w)) = asked w @ [l]"
    and fac: "\<And>w. asked (snd (limiterFactory rl w)) = asked w"
    and nxt: "\<And>r w. asked (snd (next r w)) = asked w"
    and err: "\<And>r w. asked (snd (errorHandler rl r w)) = asked w"
    and st: "handler_step allow next (rl, w) h = (h', rl', w')"
  shows "asked w' = asked w @ (case h of Loaded r key actual \<Rightarrow> [actual] | _ \<Rightarrow> [])"
proof (cases h)
  case (Arrived r)
  with st fac [of w] show ?thesis
    by (cases "limiterFactory rl w") (auto simp: handler_step_def)
next
  case (Candidate r key candidate)
  with st show ?thesis
    by (auto simp: handler_step_def split: prod.splits)
next
  case (Loaded r key actual)
  with st alw [of actual w] show ?thesis
    by (cases "allow actual w") (auto simp: handler_step_def)
next
  case (Checked r key actual ok)
  with st nxt [of r w] err [of r w] show ?thesis
    by (cases "next r w"; cases "errorHandler rl r w") (auto simp: handler_step_def split: if_splits)
next
  case (Responded resp)
  with st show ?thesis
    by (auto simp: handler_step_def)
qed

lemma run_asked:
  assumes alw: "\<And>l w. asked (snd (allow l w)) = asked w @ [l]"
    and nxt: "\<And>r w. asked (snd (next r w)) = asked w"
  shows "(\<And>w. asked (snd (limiterFactory rl w)) = asked w) \<Longrightarrow>
    (\<And>r w. asked (snd (errorHandler rl r w)) = asked w) \<Longrightarrow>
    \<forall>h\<in>set hs. holds_stored (limiters rl) h \<Longrightarrow>
    run allow next ((rl, w), hs) sched = ((rl', w'), hs') \<Longrightarrow>
    map Some (asked w') = map Some (asked w)
      @ map (\<lambda>i. limiters rl' (handler_key (keyFunc rl) (hs ! i))) (allow_order (map phase hs) sched)"
proof (induction sched arbitrary: rl w hs)
  case Nil
  then show ?case by simp
next
  case (Cons i sched)
  show ?case
  proof (cases "i < length hs")
    case False
    with Cons.prems(4) have "run allow next ((rl, w), hs) sched = ((rl', w'), hs')"
      by simp
    from Cons.IH [OF Cons.prems(1,2,3) this] False show ?thesis
      by simp
  next
    case True
    obtain h1 rl1 w1 where st: "handler_step allow next (rl, w) (hs ! i) = (h1, rl1, w1)"
      by (metis prod.exhaust)
    let ?hs1 = "hs[i := h1]"
    have hi: "holds_stored (limiters rl) (hs ! i)"
      using Cons.prems(3) True by simp
    note si = handler_step_inv [OF st hi]
    have le: "limiters rl \<subseteq>\<^sub>m limiters rl1"
      using si by (rule conjunct1)
    have new: "holds_stored (limiters rl1) h1"
      using si by (rule conjunct2)
    have inv1: "\<forall>h\<in>set ?hs1. holds_stored (limiters rl1) h"
    proof
      fix h assume "h \<in> set ?hs1"
      then have "h = h1 \<or> h \<in> set hs"
        using set_update_subset_insert [of hs i h1] by auto
      then show "holds_stored (limiters rl1) h"
        using new le Cons.prems(3) holds_stored_mono by blast
    qed
    have fields: "limiterFactory rl1 = limiterFactory rl" "keyFunc rl1 = keyFunc rl"
      "errorHandler rl1 = errorHandler rl"
      using handler_step_fields [OF st] by simp_all
    have run1: "run allow next ((rl1, w1), ?hs1) sched = ((rl', w'), hs')"
      using Cons.prems(4) True st by simp
    have le1: "limiters rl1 \<subseteq>\<^sub>m limiters rl'"
      using run_inv [OF inv1 run1] by simp
    have ph: "map phase ?hs1 = (map phase hs)[i := min 4 (Suc (map phase hs ! i))]"
      using True handler_step_phase [OF st] by (simp add: map_update)
    have IH: "map Some (asked w') = map Some (asked w1)
        @ map (\<lambda>j. limiters rl' (handler_key (keyFunc rl) (?hs1 ! j))) (allow_order (map phase ?hs1) sched)"
      using Cons.IH [where rl = rl1 and w = w1 and hs = "?hs1", OF _ _ inv1 run1] Cons.prems(1,2)
      by (simp add: fields)
    have keys: "map (\<lambda>j. limiters rl' (handler_key (keyFunc rl) (?hs1 ! j))) (allow_order (map phase ?hs1) sched)
        = map (\<lambda>j. limiters rl' (handler_key (keyFunc rl) (hs ! j))) (allow_order (map phase ?hs1) sched)"
    proof (rule map_cong [OF refl])
      fix j assume "j \<in> set (allow_order (map phase ?hs1) sched)"
      then have j: "j < length (map phase ?hs1) \<and> map phase ?hs1 ! j \<le> 2"
        by (rule allow_order_phase)
      show "limiters rl' (handler_key (keyFunc rl) (?hs1 ! j)) = limiters rl' (handler_key (keyFunc rl) (hs ! j))"
      proof (cases "j = i")
        case False
        then show ?thesis by simp
      next
        case eq: True
        with j True have "phase h1 \<le> 2" by simp
        with handler_step_key [OF st] have "handler_key (keyFunc rl) h1 = handler_key (keyFunc rl) (hs ! i)"
          by simp
        with eq True show ?thesis by simp
      qed
    qed
    have here: "map Some (asked w1) = map Some (asked w)
        @ (if map phase hs ! i = 2 then [limiters rl' (handler_key (keyFunc rl) (hs ! i))] else [])"
    proof (cases "hs ! i")
      case (Loaded r key actual)
      with hi have "limiters rl key = Some actual" by simp
      with le le1 have "limiters rl' key = Some actual"
        by (metis map_le_def domI)
      with Loaded handler_step_asked [of asked allow rl "next" w "hs ! i" h1 rl1 w1, OF alw Cons.prems(1) nxt Cons.prems(2) st]
        True show ?thesis
        by simp
    qed (use True handler_step_asked [of asked allow rl "next" w "hs ! i" h1 rl1 w1, OF alw Cons.prems(1) nxt Cons.prems(2) st]
         in simp_all)
    show ?thesis
      using True IH keys here ph by simp
  qed
qed

lemma Middleware_asked:
  assumes alw: "\<And>l w. asked (snd (allow l w)) = asked w @ [l]"
    and fac: "\<And>w. asked (snd (limiterFactory rl w)) = asked w"
    and nxt: "\<And>r w. asked (snd (next r w)) = asked w"
    and err: "\<And>r w. asked (snd (errorHandler rl r w)) = asked w"
  shows "map Some (asked (snd (snd (Middleware allow next (rl, w) r))))
         = map Some (asked w) @ [limiters (fst (snd (Middleware allow next (rl, w) r))) (keyFunc rl r)]"
proof -
  obtain c w1 where f: "limiterFactory rl w = (c, w1)" by (cases "limiterFactory rl w")
  obtain a ld m where l: "LoadOrStore (limiters rl) (keyFunc rl r) c = ((a, ld), m)"
    by (metis prod.exhaust)
  obtain ok w2 where al: "allow a w1 = (ok, w2)" by (cases "allow a w1")
  obtain resp w3 where h: "(if \<not> ok then errorHandler rl r w2 else next r w2) = (resp, w3)"
    by (metis prod.exhaust)
  have "asked w1 = asked w" using fac [of w] f by simp
  moreover have "asked w2 = asked w1 @ [a]" using alw [of a w1] al by simp
  moreover have "asked w3 = asked w2"
    using h nxt [of r w2] err [of r w2] by (auto split: if_splits)
  moreover have "Middleware allow next (rl, w) r = (resp, rl\<lparr>limiters := m\<rparr>, w3)"
    using f l al h by (auto simp: Middleware_def Let_def split: if_splits)
  moreover have "m (keyFunc rl r) = Some a"
    using LoadOrStore_result [OF l] by simp
  ultimately show ?thesis by simp
qed

text \<open>
  Claim C4 (registry single-instance invariant). Let \<open>asked\<close> be anything observable in
  the program's state that lists, in order, the limiters \<open>Allow\<close> has been called on:
  each call of \<open>Allow\<close> appends the limiter it is called on and nothing else changes it.
  Whatever requests arrive and however the steps of their handlers interleave,
  a limiter stored under a key stays the one stored under that key; every handler that
  has its limiter from \<open>LoadOrStore\<close> holds the limiter stored under its key; and the
  calls of \<open>Allow\<close> made during the run are, in the order the schedule makes them, each
  on the limiter the registry stores under the key of the request being served. So the
  one instance of a key that is ever stored or asked is that one: a candidate the
  factory makes for a request whose key has a limiter is neither stored nor asked,
  \<open>LoadOrStore\<close> drops it and the handler goes on with the stored limiter. The
  same holds of one request served through \<open>Middleware\<close> or \<open>MiddlewareFunc\<close>: \<open>Allow\<close> is
  called once, on the limiter then stored under the key, and a key that had a limiter
  keeps the registry as it was.
\<close>

theorem registry_single_instance:
  fixes reqs :: "'req list" and hs' :: "('req, 'resp, 'r) handler list"
  assumes alw: "\<And>l w. asked (snd (allow l w)) = asked w @ [l]"
    and fac: "\<And>w. asked (snd (limiterFactory rl w)) = asked w"
    and nxt: "\<And>r w. asked (snd (next r w)) = asked w"
    and err: "\<And>r w. asked (snd (errorHandler rl r w)) = asked w"
    and run: "run allow next ((rl, w), map Arrived reqs) sched = ((rl', w'), hs')"
  shows "(\<forall>key l. limiters rl key = Some l \<longrightarrow> limiters rl' key = Some l)
       \<and> (\<forall>h\<in>set hs'. holds_stored (limiters rl') h)
       \<and> map Some (asked w') = map Some (asked w)
           @ map (\<lambda>i. limiters rl' (keyFunc rl (reqs ! i))) (allow_order (replicate (length reqs) 0) sched)
       \<and> (\<forall>r. map Some (asked (snd (snd (Middleware allow next (rl, w) r))))
                 = map Some (asked w) @ [limiters (fst (snd (Middleware allow next (rl, w) r))) (keyFunc rl r)]
              \<and> MiddlewareFunc allow next (rl, w) r = Middleware allow next (rl, w) r
              \<and> (limiters rl (keyFunc rl r) \<noteq> None \<longrightarrow>
                   limiters (fst (snd (Middleware allow next (rl, w) r))) = limiters rl))
       \<and> (\<forall>r key candidate l. limiters rl key = Some l \<longrightarrow>
            handler_step allow next (rl, w) (Candidate r key candidate) = (Loaded r key l, rl, w))"
proof -
  have inv: "\<forall>h\<in>set (map Arrived reqs). holds_stored (limiters rl) h"
    by auto
  from run_inv [OF inv run]
  have le: "limiters rl \<subseteq>\<^sub>m limiters rl'" and st: "\<forall>h\<in>set hs'. holds_stored (limiters rl') h"
    by blast+
  have A: "\<forall>key l. limiters rl key = Some l \<longrightarrow> limiters rl' key = Some l"
    using le by (auto simp: map_le_def dom_def)
  have ph: "map phase (map Arrived reqs :: ('req, 'resp, 'r) handler list) = replicate (length reqs) 0"
    by (induction reqs) simp_all
  have "map (\<lambda>i. limiters rl' (handler_key (keyFunc rl) (map Arrived reqs ! i :: ('req, 'resp, 'r) handler)))
          (allow_order (replicate (length reqs) 0) sched)
      = map (\<lambda>i. limiters rl' (keyFunc rl (reqs ! i))) (allow_order (replicate (length reqs) 0) sched)"
  proof (rule map_cong [OF refl])
    fix i assume "i \<in> set (allow_order (replicate (length reqs) 0) sched)"
    then have "i < length reqs"
      using allow_order_phase [of i "replicate (length reqs) 0" sched] by simp
    then show "limiters rl' (handler_key (keyFunc rl) (map Arrived reqs ! i :: ('req, 'resp, 'r) handler))
        = limiters rl' (keyFunc rl (reqs ! i))"
      by simp
  qed
  with run_asked [of asked allow "next" rl "map Arrived reqs" w sched rl' w' hs', OF alw nxt fac err inv run] ph
  have B: "map Some (asked w') = map Some (asked w)
      @ map (\<lambda>i. limiters rl' (keyFunc rl (reqs ! i))) (allow_order (replicate (length reqs) 0) sched)"
    by simp
  have C: "limiters (fst (snd (Middleware allow next (rl, w) r))) = limiters rl"
    if "limiters rl (keyFunc rl r) \<noteq> None" for r
    using that by (auto simp: Middleware_def LoadOrStore_def Let_def split: prod.splits)
  have D: "handler_step allow next (rl, w) (Candidate r key candidate) = (Loaded r key l, rl, w)"
    if "limiters rl key = Some l" for r :: 'req and key candidate l
    using that by (simp add: handler_step_def LoadOrStore_def)
  show ?thesis
    using A st B C D Middleware_asked [of asked allow rl "next" w, OF alw fac nxt err]
    by (simp add: MiddlewareFunc_eq)
qed

theorem registry_single_instance_witness:
  "snd (snd (fst (run (\<lambda>(l :: nat) (w :: nat \<times> nat list). (True, (fst w, snd w @ [l])))
          (\<lambda>(r :: string) w. (True, w))
          ((\<lparr>limiterFactory = (\<lambda>w. (fst w, (Suc (fst w), snd w))), keyFunc = (\<lambda>r. r),
             errorHandler = (\<lambda>r w. (False, w)), limiters = Map.empty\<rparr>, (0, [])),
           map Arrived [''a'', ''a'']) [0, 1, 1, 0, 0, 1]))) = [Suc 0, Suc 0]
   \<and> allow_order (replicate (length [''a'', ''a'']) 0) [0, 1, 1, 0, 0, 1] = [0, 1]
   \<and> limiters (fst (fst (run (\<lambda>(l :: nat) (w :: nat \<times> nat list). (True, (fst w, snd w @ [l])))
          (\<lambda>(r :: string) w. (True, w))
          ((\<lparr>limiterFactory = (\<lambda>w. (fst w, (Suc (fst w), snd w))), keyFunc = (\<lambda>r. r),
             errorHandler = (\<lambda>r w. (False, w)), limiters = Map.empty\<rparr>, (0, [])),
           map Arrived [''a'', ''a'']) [0, 1, 1, 0, 0, 1]))) ''a'' = Some (Suc 0)"
proof -
  let ?allow = "\<lambda>(l :: nat) (w :: nat \<times> nat list). (True, (fst w, snd w @ [l]))"
  let ?next = "\<lambda>(r :: string) (w :: nat \<times> nat list). (True, w)"
  let ?rl = "\<lparr>limiterFactory = (\<lambda>w :: nat \<times> nat list. (fst w, (Suc (fst w), snd w))),
             keyFunc = (\<lambda>r :: string. r),
             errorHandler = (\<lambda>(r :: string) (w :: nat \<times> nat list). (False, w)),
             limiters = Map.empty\<rparr>"
  let ?X = "run ?allow ?next ((?rl, (0, [])), map Arrived [''a'', ''a'']) [0, 1, 1, 0, 0, 1]"
  have h1: "\<And>l w. snd (snd (?allow l w)) = snd w @ [l]" by simp
  have h2: "\<And>w. snd (snd (limiterFactory ?rl w)) = snd w" by simp
  have h3: "\<And>r w. snd (snd (?next r w)) = snd w" by simp
  have h4: "\<And>r w. snd (snd (errorHandler ?rl r w)) = snd w" by simp
  have h5: "?X = ((fst (fst ?X), snd (fst ?X)), snd ?X)"
    by simp
  have ask: "snd (snd (fst ?X)) = [Suc 0, Suc 0]"
    by (simp add: handler_step_def LoadOrStore_def)
  have ord: "allow_order (replicate (length [''a'', ''a'']) 0) [0, 1, 1, 0, 0, 1] = [0, 1]"
    by (simp add: numeral_2_eq_2)
  from registry_single_instance [of snd ?allow ?rl ?next, OF h1 h2 h3 h4 h5]
  have "map Some (snd (snd (fst ?X))) = map Some (snd (0 :: nat, [] :: nat list))
      @ map (\<lambda>i. limiters (fst (fst ?X)) (keyFunc ?rl ([''a'', ''a''] ! i)))
          (allow_order (replicate (length [''a'', ''a'']) 0) [0, 1, 1, 0, 0, 1])"
    by blast
  then have "limiters (fst (fst ?X)) ''a'' = Some (Suc 0)"
    unfolding ask ord by simp
  with ask ord show ?thesis
    by blast
qed

section \<open>The per-key middleware: the factory runs on every request\<close>

lemma Middleware_fields:
  "limiterFactory (fst (snd (Middleware allow next (rl, w) r))) = limiterFactory rl
   \<and> keyFunc (fst (snd (Middleware allow next (rl, w) r))) = keyFunc rl
   \<and> errorHandler (fst (snd (Middleware allow next (rl, w) r))) = errorHandler rl"
  by (simp add: Middleware_def Let_def split: prod.splits)

lemma Middleware_calls:
  assumes fac: "\<And>w. calls (snd (limiterFactory rl w)) = Suc (calls w)"
    and alw: "\<And>l w. calls (snd (allow l w)) = calls w"
    and nxt: "\<And>r w. calls (snd (next r w)) = calls w"
    and err: "\<And>r w. calls (snd (errorHandler rl r w)) = calls w"
  shows "calls (snd (snd (Middleware allow next (rl, w) r))) = Suc (calls w)"
proof -
  obtain c w1 where f: "limiterFactory rl w = (c, w1)" by (cases "limiterFactory rl w")
  obtain a ld m where l: "LoadOrStore (limiters rl) (keyFunc rl r) c = ((a, ld), m)"
    by (metis prod.exhaust)
  obtain ok w2 where al: "allow a w1 = (ok, w2)" by (cases "allow a w1")
  obtain resp w3 where h: "(if \<not> ok then errorHandler rl r w2 else next r w2) = (resp, w3)"
    by (metis prod.exhaust)
  have "calls w1 = Suc (calls w)" using fac [of w] f by simp
  moreover have "calls w2 = calls w1" using alw [of a w1] al by simp
  moreover have "calls w3 = calls w2"
    using h nxt [of r w2] err [of r w2] by (auto split: if_splits)
  moreover have "snd (snd (Middleware allow next (rl, w) r)) = w3"
    using f l al h by (auto simp: Middleware_def Let_def split: if_splits)
  ultimately show ?thesis by simp
qed

lemma serve_calls:
  assumes fac: "\<And>w. calls (snd (limiterFactory rl w)) = Suc (calls w)"
    and alw: "\<And>l w. calls (snd (allow l w)) = calls w"
    and nxt: "\<And>r w. calls (snd (next r w)) = calls w"
    and err: "\<And>r w. calls (snd (errorHandler rl r w)) = calls w"
  shows "calls (snd (snd (serve allow next (rl, w) reqs))) = calls w + length reqs"
  using fac err
proof (induction reqs arbitrary: rl w)
  case Nil
  then show ?case by simp
next
  case (Cons r reqs)
  obtain resp rl1 w1 where m: "Middleware allow next (rl, w) r = (resp, rl1, w1)"
    by (metis prod.exhaust)
  have c1: "calls w1 = Suc (calls w)"
    using Middleware_calls [of calls rl allow "next" w r, OF Cons.prems(1) alw nxt Cons.prems(2)] m
    by simp
  have fl: "limiterFactory rl1 = limiterFactory rl" "errorHandler rl1 = errorHandler rl"
    using Middleware_fields [of allow "next" rl w r] m by simp_all
  have "calls (snd (snd (serve allow next (rl1, w1) reqs))) = calls w1 + length reqs"
    by (rule Cons.IH) (simp_all add: fl Cons.prems)
  then show ?case
    using m c1 by (cases "serve allow next (rl1, w1) reqs") simp
qed

text \<open>
  Claim C10 (the factory runs once per request). Let \<open>calls\<close> be anything observable in
  the program's state that each run of the factory raises by one and that neither
  \<open>Allow\<close> nor the handlers change, such as a counter the factory increments. After
  any requests served one after the other it has risen by the number of requests, not
  of keys. A request whose key has a stored limiter still runs the factory first: the
  stored limiter is asked in the state the factory left, the candidate is dropped and
  the registry is unchanged. \<open>MiddlewareFunc\<close> does the same as \<open>Middleware\<close>.
\<close>

theorem factory_runs_per_request:
  assumes fac: "\<And>w. calls (snd (limiterFactory rl w)) = Suc (calls w)"
    and alw: "\<And>l w. calls (snd (allow l w)) = calls w"
    and nxt: "\<And>r w. calls (snd (next r w)) = calls w"
    and err: "\<And>r w. calls (snd (errorHandler rl r w)) = calls w"
  shows "calls (snd (snd (serve allow next (rl, w) reqs))) = calls w + length reqs
       \<and> (\<forall>r l. limiters rl (keyFunc rl r) = Some l \<longrightarrow>
            Middleware allow next (rl, w) r
              = (case allow l (snd (limiterFactory rl w)) of (ok, w2) \<Rightarrow>
                   (case (if \<not> ok then errorHandler rl r w2 else next r w2) of
                      (resp, w3) \<Rightarrow> (resp, rl, w3)))
          \<and> MiddlewareFunc allow next (rl, w) r = Middleware allow next (rl, w) r)"
proof (intro conjI allI impI)
  show "calls (snd (snd (serve allow next (rl, w) reqs))) = calls w + length reqs"
    using assms by (rule serve_calls)
next
  fix r l assume "limiters rl (keyFunc rl r) = Some l"
  then show "Middleware allow next (rl, w) r
      = (case allow l (snd (limiterFactory rl w)) of (ok, w2) \<Rightarrow>
           (case (if \<not> ok then errorHandler rl r w2 else next r w2) of
              (resp, w3) \<Rightarrow> (resp, rl, w3)))"
    by (simp add: Middleware_def LoadOrStore_def Let_def split: prod.splits)
next
  fix r l
  show "MiddlewareFunc allow next (rl, w) r = Middleware allow next (rl, w) r"
    by (rule MiddlewareFunc_eq)
qed

theorem factory_runs_per_request_witness:
  "snd (snd (serve (\<lambda>(l :: nat) (w :: nat). (True, w)) (\<lambda>(r :: string) w. (True, w))
          (\<lparr>limiterFactory = (\<lambda>w. (w, Suc w)), keyFunc = (\<lambda>r. r),
            errorHandler = (\<lambda>r w. (False, w)), limiters = Map.empty\<rparr>, 0)
          [''a'', ''a'', ''b''])) = 3
   \<and> dom (limiters (fst (snd (serve (\<lambda>(l :: nat) (w :: nat). (True, w)) (\<lambda>(r :: string) w. (True, w))
          (\<lparr>limiterFactory = (\<lambda>w. (w, Suc w)), keyFunc = (\<lambda>r. r),
            errorHandler = (\<lambda>r w. (False, w)), limiters = Map.empty\<rparr>, 0)
          [''a'', ''a'', ''b''])))) = {''a'', ''b''}"
proof -
  let ?allow = "\<lambda>(l :: nat) (w :: nat). (True, w)"
  let ?next = "\<lambda>(r :: string) (w :: nat). (True, w)"
  let ?rl = "\<lparr>limiterFactory = (\<lambda>w :: nat. (w, Suc w)), keyFunc = (\<lambda>r :: string. r),
             errorHandler = (\<lambda>(r :: string) (w :: nat). (False, w)), limiters = Map.empty\<rparr>"
  have h1: "\<And>w. id (snd (limiterFactory ?rl w)) = Suc (id w)" by simp
  have h2: "\<And>l w. id (snd (?allow l w)) = id w" by simp
  have h3: "\<And>r w. id (snd (?next r w)) = id w" by simp
  have h4: "\<And>r w. id (snd (errorHandler ?rl r w)) = id w" by simp
  have d: "dom (limiters (fst (snd (serve ?allow ?next (?rl, 0) [''a'', ''a'', ''b''])))) = {''a'', ''b''}"
    by (auto simp: Middleware_def LoadOrStore_def)
  show ?thesis
    using factory_runs_per_request [of id ?rl ?allow ?next 0 "[''a'', ''a'', ''b'']", OF h1 h2 h3 h4] d
    by simp
qed

end
